theory Spec2Isabelle
  imports Main "HOL-Library.Sublist"
begin

section \<open>Text: code units, character classes, trimming\<close>

text \<open>
  The message text is a JavaScript string. It is modelled as a \<^typ>\<open>string\<close> whose
  characters are the code units U+0000 to U+00FF; the character classes below are the
  ECMAScript classes restricted to that range.
\<close>

definition code :: "char \<Rightarrow> nat" where
  "code c = of_char c"

text \<open>\<^verbatim>\<open>\s\<close>, and the characters \<^verbatim>\<open>String.prototype.trim\<close> strips: TAB, LF, VT, FF, CR,
  SPACE and NO-BREAK SPACE.\<close>

definition is_space :: "char \<Rightarrow> bool" where
  "is_space c = (code c \<in> {9, 10, 11, 12, 13, 32, 160})"

text \<open>\<^verbatim>\<open>[\s\S]\<close>: every character.\<close>

definition any_char :: "char \<Rightarrow> bool" where
  "any_char c = True"

text \<open>\<^verbatim>\<open>.\<close> (without the s flag): every character but the line terminators LF and CR.\<close>

definition dot :: "char \<Rightarrow> bool" where
  "dot c = (code c \<noteq> 10 \<and> code c \<noteq> 13)"

text \<open>\<^verbatim>\<open>[a-z]\<close> with the i flag, and \<^verbatim>\<open>[a-zA-Z]\<close>: the ASCII letters.\<close>

definition is_alpha :: "char \<Rightarrow> bool" where
  "is_alpha c = ((97 \<le> code c \<and> code c \<le> 122) \<or> (65 \<le> code c \<and> code c \<le> 90))"

text \<open>\<^verbatim>\<open>[a-z0-9]\<close> with the i flag.\<close>

definition is_alnum :: "char \<Rightarrow> bool" where
  "is_alnum c = (is_alpha c \<or> (48 \<le> code c \<and> code c \<le> 57))"

text \<open>A literal character, as a class of one.\<close>

definition lit :: "char \<Rightarrow> char \<Rightarrow> bool" where
  "lit a c = (c = a)"

text \<open>\<^verbatim>\<open>[^,]\<close>, \<^verbatim>\<open>[^"]\<close> and \<^verbatim>\<open>[^()]\<close>.\<close>

definition not_comma :: "char \<Rightarrow> bool" where
  "not_comma c = (c \<noteq> CHR '','')"

definition not_quote :: "char \<Rightarrow> bool" where
  "not_quote c = (c \<noteq> CHR 0x22)"

definition not_paren :: "char \<Rightarrow> bool" where
  "not_paren c = (c \<noteq> CHR ''('' \<and> c \<noteq> CHR '')'')"

text \<open>\<^verbatim>\<open>String.prototype.trim\<close>.\<close>

definition trim :: "string \<Rightarrow> string" where
  "trim s = rev (dropWhile is_space (rev (dropWhile is_space s)))"

text \<open>\<^verbatim>\<open>String.prototype.toLowerCase\<close> on one code unit; it is applied to exchange
  identifiers only, which consist of ASCII letters and digits.\<close>

definition lower_char :: "char \<Rightarrow> char" where
  "lower_char c = (if 65 \<le> code c \<and> code c \<le> 90 then char_of (code c + 32) else c)"

definition toLowerCase :: "string \<Rightarrow> string" where
  "toLowerCase s = map lower_char s"

section \<open>Regular expressions\<close>

text \<open>
  The patterns of the source use a fragment of the ECMAScript pattern language in which
  every quantifier applies to a single character class. \<open>Star True c\<close> is the greedy
  \<^verbatim>\<open>c*\<close>, \<open>Star False c\<close> the lazy \<^verbatim>\<open>c*?\<close>; \<open>Alt\<close> tries its left branch first;
  \<open>Grp n\<close> is the n-th capturing group; \<open>Bol\<close> and \<open>Eol\<close> are \<^verbatim>\<open>^\<close> and \<^verbatim>\<open>$\<close>
  without the m flag.
\<close>

datatype regex =
    Eps
  | Chr "char \<Rightarrow> bool"
  | Seq regex regex
  | Alt regex regex
  | Grp nat regex
  | Star bool "char \<Rightarrow> bool"
  | Bol
  | Eol

text \<open>\<^verbatim>\<open>c+\<close>, \<^verbatim>\<open>c+?\<close> and \<^verbatim>\<open>c?\<close>.\<close>

definition Plus :: "bool \<Rightarrow> (char \<Rightarrow> bool) \<Rightarrow> regex" where
  "Plus g c = Seq (Chr c) (Star g c)"

definition Opt :: "(char \<Rightarrow> bool) \<Rightarrow> regex" where
  "Opt c = Alt (Chr c) Eps"

fun Seqs :: "regex list \<Rightarrow> regex" where
  "Seqs [] = Eps"
| "Seqs [r] = r"
| "Seqs (r # rs) = Seq r (Seqs rs)"

type_synonym captures = "(nat \<times> string) list"

text \<open>
  The backtracking matcher. A state is the input still to be read, whether the matcher
  stands at index 0 of the subject, and the groups captured so far. The result lists the
  states in which a match of the pattern can end, in the order in which backtracking
  visits them; the head is the match ECMAScript reports.
\<close>

fun star :: "bool \<Rightarrow> (char \<Rightarrow> bool) \<Rightarrow> string \<Rightarrow> string list" where
  "star g c [] = [[]]"
| "star g c (x # xs) =
     (if c x then (if g then star g c xs @ [x # xs] else (x # xs) # star g c xs)
      else [x # xs])"

fun rx :: "regex \<Rightarrow> bool \<times> string \<times> captures \<Rightarrow> (bool \<times> string \<times> captures) list" where
  "rx Eps st = [st]"
| "rx (Chr c) (b, s, k) = (case s of [] \<Rightarrow> [] | x # xs \<Rightarrow> if c x then [(False, xs, k)] else [])"
| "rx (Seq p q) st = concat (map (rx q) (rx p st))"
| "rx (Alt p q) st = rx p st @ rx q st"
| "rx (Grp n p) (b, s, k) =
     map (\<lambda>(b', s', k'). (b', s', (n, take (length s - length s') s) # k')) (rx p (b, s, k))"
| "rx (Star g c) (b, s, k) = map (\<lambda>s'. (b \<and> length s' = length s, s', k)) (star g c s)"
| "rx Bol (b, s, k) = (if b then [(b, s, k)] else [])"
| "rx Eol (b, s, k) = (if s = [] then [(b, s, k)] else [])"

text \<open>
  A match result: the index of the match, the matched text \<^verbatim>\<open>m[0]\<close>, the input after
  the match, and the captures; \<open>grp m n\<close> is \<^verbatim>\<open>m[n]\<close>, \<open>None\<close> for \<^verbatim>\<open>undefined\<close>.
\<close>

record rmatch =
  index_of :: nat
  text_of :: string
  rest_of :: string
  caps_of :: captures

definition grp :: "rmatch \<Rightarrow> nat \<Rightarrow> string option" where
  "grp m n = map_of (caps_of m) n"

text \<open>\<^verbatim>\<open>RegExp.prototype.exec\<close> of a pattern without the g flag: the leftmost match.\<close>

fun search :: "regex \<Rightarrow> nat \<Rightarrow> bool \<Rightarrow> string \<Rightarrow> rmatch option" where
  "search r i b s =
     (case rx r (b, s, []) of
        (b', s', k) # _ \<Rightarrow>
          Some \<lparr>index_of = i, text_of = take (length s - length s') s, rest_of = s', caps_of = k\<rparr>
      | [] \<Rightarrow> (case s of [] \<Rightarrow> None | x # xs \<Rightarrow> search r (Suc i) False xs))"

definition exec :: "regex \<Rightarrow> string \<Rightarrow> rmatch option" where
  "exec r s = search r 0 True s"

text \<open>
  Modelled from the spec: \<^verbatim>\<open>Fregex.forEach\<close> (common/functional-regex), which is not among
  the sources. It visits "every non-overlapping occurrence" of a global pattern "in
  left-to-right order of appearance": the pattern is matched at the current index, the
  leftmost match is handed to the callback, and matching resumes where it ended (one
  character further after an empty match).
\<close>

function scan :: "regex \<Rightarrow> nat \<Rightarrow> bool \<Rightarrow> string \<Rightarrow> rmatch list" where
  "scan r i b s =
     (case rx r (b, s, []) of
        (b', s', k) # _ \<Rightarrow>
          (if length s' < length s
           then \<lparr>index_of = i, text_of = take (length s - length s') s, rest_of = s', caps_of = k\<rparr>
                  # scan r (i + (length s - length s')) False s'
           else \<lparr>index_of = i, text_of = [], rest_of = s, caps_of = k\<rparr>
                  # (case s of [] \<Rightarrow> [] | x # xs \<Rightarrow> scan r (Suc i) False xs))
      | [] \<Rightarrow> (case s of [] \<Rightarrow> [] | x # xs \<Rightarrow> scan r (Suc i) False xs))"
  by pat_completeness auto
termination
  by (relation "measure (\<lambda>(r, i, b, s). length s)") auto

definition forEach :: "regex \<Rightarrow> string \<Rightarrow> rmatch list" where
  "forEach r s = scan r 0 True s"

text \<open>\<^verbatim>\<open>String.prototype.replace\<close> with a pattern without the g flag: the leftmost match is
  replaced.\<close>

definition replace_first :: "regex \<Rightarrow> string \<Rightarrow> string \<Rightarrow> string" where
  "replace_first r rep s =
     (case exec r s of
        None \<Rightarrow> s
      | Some m \<Rightarrow> take (index_of m) s @ rep @ rest_of m)"

text \<open>\<^verbatim>\<open>String.prototype.replace\<close> with a global pattern: every match is replaced, the text
  between the matches is kept.\<close>

function replace_from :: "regex \<Rightarrow> string \<Rightarrow> bool \<Rightarrow> string \<Rightarrow> string" where
  "replace_from r rep b s =
     (case rx r (b, s, []) of
        (b', s', k) # _ \<Rightarrow>
          (if length s' < length s then rep @ replace_from r rep False s'
           else rep @ (case s of [] \<Rightarrow> [] | x # xs \<Rightarrow> x # replace_from r rep False xs))
      | [] \<Rightarrow> (case s of [] \<Rightarrow> [] | x # xs \<Rightarrow> x # replace_from r rep False xs))"
  by pat_completeness auto
termination
  by (relation "measure (\<lambda>(r, rep, b, s). length s)") auto

definition replace_all :: "regex \<Rightarrow> string \<Rightarrow> string \<Rightarrow> string" where
  "replace_all r rep s = replace_from r rep True s"

section \<open>The argument parser\<close>

record param =
  name :: string
  "value" :: string
  index :: nat

text \<open>\<^verbatim>\<open>/([^,]+?\"[^\"]+\")|([^,]+)/g\<close>\<close>

definition splitByComma :: regex where
  "splitByComma =
     Alt (Grp 1 (Seqs [Plus False not_comma, Chr (lit (CHR 0x22)), Plus True not_quote,
                       Chr (lit (CHR 0x22))]))
         (Grp 2 (Plus True not_comma))"

text \<open>\<^verbatim>\<open>/^(([a-zA-Z]+)\s*=\s*(("([^"]*)")|"?(.+)"?))|(.+)$/\<close>\<close>

definition splitValues :: regex where
  "splitValues =
     Alt (Seq Bol
            (Grp 1 (Seqs [Grp 2 (Plus True is_alpha), Star True is_space, Chr (lit CHR ''=''),
                          Star True is_space,
                          Grp 3 (Alt (Grp 4 (Seqs [Chr (lit (CHR 0x22)), Grp 5 (Star True not_quote),
                                                   Chr (lit (CHR 0x22))]))
                                     (Seqs [Opt (lit (CHR 0x22)), Grp 6 (Plus True dot),
                                            Opt (lit (CHR 0x22))]))])))
         (Seq (Grp 7 (Plus True dot)) Eol)"

text \<open>\<^verbatim>\<open>/^"(.*)"$/\<close>\<close>

definition quotes :: regex where
  "quotes = Seqs [Bol, Chr (lit (CHR 0x22)), Grp 1 (Star True dot), Chr (lit (CHR 0x22)), Eol]"

text \<open>A JavaScript value used as a condition: \<^verbatim>\<open>undefined\<close> and the empty string are
  falsy.\<close>

definition truthy :: "string option \<Rightarrow> bool" where
  "truthy v = (case v of None \<Rightarrow> False | Some s \<Rightarrow> s \<noteq> [])"

text \<open>The first loop of \<^verbatim>\<open>parseArguments\<close>: the trimmed matches of \<open>splitByComma\<close>.\<close>

definition argList :: "string \<Rightarrow> string list" where
  "argList params = map (\<lambda>m. trim (text_of m)) (forEach splitByComma params)"

text \<open>The body of the second loop, for the item at position \<open>i\<close>: the Params it pushes.\<close>

definition classify :: "string \<Rightarrow> nat \<Rightarrow> param list" where
  "classify item i =
     (case exec splitValues item of
        None \<Rightarrow> []
      | Some m \<Rightarrow>
          if truthy (grp m 7) then
            (let m7 = the (grp m 7);
                 v = (case exec quotes m7 of Some q \<Rightarrow> the (grp q 1) | None \<Rightarrow> m7)
             in [\<lparr>name = [], value = v, index = i\<rparr>])
          else if truthy (grp m 6) then [\<lparr>name = the (grp m 2), value = the (grp m 6), index = i\<rparr>]
          else if truthy (grp m 5) then [\<lparr>name = the (grp m 2), value = the (grp m 5), index = i\<rparr>]
          else [])"

definition parseArguments :: "string \<Rightarrow> param list" where
  "parseArguments params =
     concat (map (\<lambda>(item, i). classify item i) (zip (argList params) [0 ..< length (argList params)]))"

section \<open>The action parser\<close>

record action =
  action_name :: string
  params :: "param list"

text \<open>\<^verbatim>\<open>/([a-z]+)\(([\s\S]*?)\)/gi\<close>\<close>

definition actionPattern :: regex where
  "actionPattern =
     Seqs [Grp 1 (Plus True is_alpha), Chr (lit CHR ''(''), Grp 2 (Star False any_char),
           Chr (lit CHR '')'')]"

definition parseActions :: "string \<Rightarrow> action list" where
  "parseActions commands =
     map (\<lambda>m. \<lparr>action_name = trim (the (grp m 1)),
                params = parseArguments (trim (the (grp m 2)))\<rparr>)
         (forEach actionPattern commands)"

section \<open>The alert extractor\<close>

text \<open>\<^verbatim>\<open>/\{!\}/\<close>\<close>

definition notifyRegex :: regex where
  "notifyRegex = Seqs [Chr (lit CHR ''{''), Chr (lit CHR ''!''), Chr (lit CHR ''}'')]"

text \<open>\<^verbatim>\<open>/([a-z]+)\(([\s\S]*?)\)\s*{([\s\S]*?)}/gi\<close>\<close>

definition alertBlock :: regex where
  "alertBlock =
     Seqs [Grp 1 (Plus True is_alpha), Chr (lit CHR ''(''), Grp 2 (Star False any_char),
           Chr (lit CHR '')''), Star True is_space, Chr (lit CHR ''{''),
           Grp 3 (Star False any_char), Chr (lit CHR ''}'')]"

text \<open>\<^verbatim>\<open>/\s+/ug\<close>\<close>

definition spaces :: regex where
  "spaces = Plus True is_space"

text \<open>The text \<^verbatim>\<open>handleAlerts\<close> builds once the marker has been found.\<close>

definition toSend :: "string \<Rightarrow> string" where
  "toSend msg =
     trim (replace_all spaces '' '' (replace_first notifyRegex [] (replace_all alertBlock [] msg)))"

text \<open>\<^verbatim>\<open>handleAlerts\<close>: the result is the text handed to \<^verbatim>\<open>notifier.send\<close>, \<open>None\<close> when
  the notifier is not called.\<close>

definition handleAlerts :: "string \<Rightarrow> string option" where
  "handleAlerts msg =
     (case exec notifyRegex msg of
        None \<Rightarrow> None
      | Some m \<Rightarrow> if toSend msg \<noteq> [] then Some (toSend msg) else None)"

section \<open>The message block extractor\<close>

text \<open>\<^verbatim>\<open>/([a-z][a-z0-9]*)\(([^()]*?)\)\s*{([\s\S]*?)}/gi\<close>\<close>

definition blockPattern :: regex where
  "blockPattern =
     Seqs [Grp 1 (Seq (Chr is_alpha) (Star True is_alnum)), Chr (lit CHR ''(''),
           Grp 2 (Star False not_paren), Chr (lit CHR '')''), Star True is_space,
           Chr (lit CHR ''{''), Grp 3 (Star False any_char), Chr (lit CHR ''}'')]"

text \<open>\<^verbatim>\<open>commandBlocks\<close>: the arguments of the calls of the callback, in order.\<close>

definition commandBlocks :: "string \<Rightarrow> (string \<times> string \<times> string) list" where
  "commandBlocks msg =
     concat (map (\<lambda>m.
        let exchangeName = toLowerCase (trim (the (grp m 1)));
            symbol = trim (the (grp m 2));
            actions = trim (the (grp m 3))
        in if exchangeName \<noteq> [] \<and> symbol \<noteq> [] \<and> actions \<noteq> []
           then [(exchangeName, symbol, actions)] else [])
       (forEach blockPattern msg))"

section \<open>The connection pool\<close>

text \<open>An element of the \<^verbatim>\<open>credentials\<close> list: \<^verbatim>\<open>name\<close>, the optional \<^verbatim>\<open>exchange\<close>, and the
  remaining properties.\<close>

record credentials =
  cred_name :: string
  cred_exchange :: "string option"
  cred_keys :: "(string \<times> string) list"

text \<open>An element of the catalog \<^verbatim>\<open>this.exchanges\<close>.\<close>

record entry =
  entry_name :: string
  description :: string

text \<open>
  Modelled from the spec: the exchange classes (\<^verbatim>\<open>match.class\<close>) and their base class are
  not among the sources. A handle has the identity "(name, credentials) pair, not object
  identity"; \<^verbatim>\<open>matches\<close> compares that pair; the reference count "starts at the
  instantiation default", which is 1 ("opening the same (name, credentials) twice
  increments a single shared reference count to 2"); \<^verbatim>\<open>removeReference\<close> returns the new
  count. The handle that \<^verbatim>\<open>openExchange(name, credentials, symbol)\<close> creates has the identity
  (name, credentials): "concurrent callers racing for the same (name, credentials) during
  initialization will find it". \<open>terminations\<close> counts the calls of \<^verbatim>\<open>terminate()\<close>;
  \<open>handle_class\<close> is the catalog entry whose class built the handle.
\<close>

record handle =
  handle_name :: string
  handle_credentials :: credentials
  handle_class :: string
  refCount :: int
  terminations :: nat

definition instantiate :: "entry \<Rightarrow> string \<Rightarrow> credentials \<Rightarrow> handle" where
  "instantiate match n c =
     \<lparr>handle_name = n, handle_credentials = c, handle_class = entry_name match,
      refCount = 1, terminations = 0\<rparr>"

definition matches :: "handle \<Rightarrow> string \<Rightarrow> credentials \<Rightarrow> bool" where
  "matches h n c = (n = handle_name h \<and> c = handle_credentials h)"

definition addReference :: "handle \<Rightarrow> handle" where
  "addReference h = h\<lparr>refCount := refCount h + 1\<rparr>"

definition removeReference :: "handle \<Rightarrow> int \<times> handle" where
  "removeReference h = (refCount h - 1, h\<lparr>refCount := refCount h - 1\<rparr>)"

definition terminate :: "handle \<Rightarrow> handle" where
  "terminate h = h\<lparr>terminations := Suc (terminations h)\<rparr>"

text \<open>
  The manager. Handles are objects, compared by reference in \<^verbatim>\<open>closeExchange\<close>: the
  store \<open>heap\<close> holds every handle created so far, a reference is an index into it, and
  \<open>opened\<close> is the array \<^verbatim>\<open>this.opened\<close> of references. \<open>logged\<close> collects the arguments of
  \<^verbatim>\<open>logger.error\<close>; the banners written with \<^verbatim>\<open>logger.notice\<close> and \<^verbatim>\<open>logger.progress\<close> are
  left out.
\<close>

record manager =
  opened :: "nat list"
  exchanges :: "entry list"
  heap :: "handle list"
  logged :: "string list"

definition ctor :: "entry list \<Rightarrow> manager" where
  "ctor xs = \<lparr>opened = [], exchanges = xs, heap = [], logged = []\<rparr>"

definition findOpened :: "manager \<Rightarrow> string \<Rightarrow> credentials \<Rightarrow> nat option" where
  "findOpened m n c = find (\<lambda>el. matches (heap m ! el) n c) (opened m)"

text \<open>How a promise without a value settles.\<close>

datatype promise = Resolved | Rejected string

text \<open>
  \<^verbatim>\<open>closeExchange\<close> is an async function; the argument is \<open>None\<close> for \<^verbatim>\<open>null\<close>. When the count
  returned by \<^verbatim>\<open>removeReference()\<close> is at most 0 it calls \<^verbatim>\<open>exchange.terminate()\<close> and suspends
  at the \<^verbatim>\<open>await\<close>; the assignment to \<^verbatim>\<open>this.opened\<close> comes after it. \<open>closeExchange_begin\<close> is
  the part up to the await: it ends with the call returned, or suspended with
  \<^verbatim>\<open>terminate()\<close> called on the handle. \<open>closeExchange_resume\<close> is the part after the await,
  given how \<^verbatim>\<open>terminate()\<close> settled (\<open>None\<close>: resolved, \<open>Some err\<close>: rejected with \<open>err\<close>): a
  rejection is thrown at the \<^verbatim>\<open>await\<close>, so the assignment is not reached and the promise of
  \<^verbatim>\<open>closeExchange\<close> rejects. \<open>closeExchange\<close> is a call that nothing interrupts; \<open>terminated\<close>
  is the outcome of \<^verbatim>\<open>terminate()\<close>, used when it is called.
\<close>

datatype close_state = Closed | Terminating nat

definition closeExchange_begin :: "manager \<Rightarrow> nat option \<Rightarrow> close_state \<times> manager" where
  "closeExchange_begin m exchange =
     (case exchange of
        None \<Rightarrow> (Closed, m)
      | Some a \<Rightarrow>
          (case findOpened m (handle_name (heap m ! a)) (handle_credentials (heap m ! a)) of
             None \<Rightarrow> (Closed, m)
           | Some ex \<Rightarrow>
               (let (n, h) = removeReference (heap m ! a) in
                if n \<le> 0
                then (Terminating a, m\<lparr>heap := (heap m)[a := terminate h]\<rparr>)
                else (Closed, m\<lparr>heap := (heap m)[a := h]\<rparr>))))"

definition closeExchange_resume :: "manager \<Rightarrow> nat \<Rightarrow> string option \<Rightarrow> promise \<times> manager" where
  "closeExchange_resume m a outcome =
     (case outcome of
        None \<Rightarrow> (Resolved, m\<lparr>opened := filter (\<lambda>item. item \<noteq> a) (opened m)\<rparr>)
      | Some err \<Rightarrow> (Rejected err, m))"

definition closeExchange :: "manager \<Rightarrow> nat option \<Rightarrow> string option \<Rightarrow> promise \<times> manager" where
  "closeExchange m exchange terminated =
     (case closeExchange_begin m exchange of
        (Closed, m') \<Rightarrow> (Resolved, m')
      | (Terminating a, m') \<Rightarrow> closeExchange_resume m' a terminated)"

text \<open>
  \<^verbatim>\<open>openExchange\<close> is an async function that suspends at \<^verbatim>\<open>await newExchange.init(symbol)\<close> and,
  when \<^verbatim>\<open>init\<close> has failed, at \<^verbatim>\<open>await this.closeExchange(newExchange)\<close>, which is suspended
  itself while \<^verbatim>\<open>terminate()\<close> is awaited. \<open>openExchange_begin\<close> is the part before the first
  await: it ends with the handle found, with no catalog entry, or with a new handle pushed
  and its \<^verbatim>\<open>init\<close> started. \<open>openExchange_resume\<close> is the part after the first await, given
  how \<^verbatim>\<open>init\<close> settled (\<open>None\<close>: resolved, \<open>Some err\<close>: rejected with \<open>err\<close>): it ends with the
  call returned, or suspended in \<^verbatim>\<open>closeExchange\<close>. \<open>openExchange_finish\<close> is the part after
  that, given how \<^verbatim>\<open>terminate()\<close> settled: a rejection of \<^verbatim>\<open>closeExchange\<close> is thrown inside the
  \<^verbatim>\<open>catch\<close> block, so \<^verbatim>\<open>return null\<close> is not reached and the promise of \<^verbatim>\<open>openExchange\<close>
  rejects. The result of a call is \<open>Inr\<close> of the value returned (\<open>None\<close> for \<^verbatim>\<open>null\<close>), or
  \<open>Inl\<close> of the error its promise rejects with. \<open>openExchange_rest\<close> is all that follows the
  first await, and \<open>openExchange\<close> a whole call, when nothing interrupts them; \<open>init\<close> gives
  the outcome of the handle's \<^verbatim>\<open>init\<close> for a symbol.
\<close>

datatype open_state = Found nat | Unsupported | Created nat

datatype init_state = Returned "nat option" | Closing nat

definition exchangeName_of :: "string \<Rightarrow> credentials \<Rightarrow> string" where
  "exchangeName_of n c = (if truthy (cred_exchange c) then the (cred_exchange c) else n)"

definition openExchange_begin :: "manager \<Rightarrow> string \<Rightarrow> credentials \<Rightarrow> open_state \<times> manager" where
  "openExchange_begin m n c =
     (case findOpened m n c of
        Some a \<Rightarrow> (Found a, m\<lparr>heap := (heap m)[a := addReference (heap m ! a)]\<rparr>)
      | None \<Rightarrow>
          (case find (\<lambda>el. entry_name el = exchangeName_of n c) (exchanges m) of
             None \<Rightarrow> (Unsupported, m)
           | Some match \<Rightarrow>
               (Created (length (heap m)),
                m\<lparr>heap := heap m @ [instantiate match n c],
                  opened := opened m @ [length (heap m)]\<rparr>)))"

definition openExchange_resume :: "manager \<Rightarrow> nat \<Rightarrow> string option \<Rightarrow> init_state \<times> manager" where
  "openExchange_resume m a outcome =
     (case outcome of
        None \<Rightarrow> (Returned (Some a), m)
      | Some err \<Rightarrow>
          (case closeExchange_begin (m\<lparr>logged := logged m @ [err]\<rparr>) (Some a) of
             (Closed, m') \<Rightarrow> (Returned None, m')
           | (Terminating b, m') \<Rightarrow> (Closing b, m')))"

definition openExchange_finish ::
  "manager \<Rightarrow> nat \<Rightarrow> string option \<Rightarrow> (string + nat option) \<times> manager" where
  "openExchange_finish m a outcome =
     (case closeExchange_resume m a outcome of
        (Resolved, m') \<Rightarrow> (Inr None, m')
      | (Rejected err, m') \<Rightarrow> (Inl err, m'))"

definition openExchange_rest ::
  "manager \<Rightarrow> nat \<Rightarrow> string option \<Rightarrow> string option \<Rightarrow> (string + nat option) \<times> manager" where
  "openExchange_rest m a outcome terminated =
     (case openExchange_resume m a outcome of
        (Returned r, m') \<Rightarrow> (Inr r, m')
      | (Closing b, m') \<Rightarrow> openExchange_finish m' b terminated)"

definition openExchange ::
  "manager \<Rightarrow> string \<Rightarrow> credentials \<Rightarrow> string \<Rightarrow> (string \<Rightarrow> string option) \<Rightarrow> string option \<Rightarrow>
   (string + nat option) \<times> manager" where
  "openExchange m n c symbol init terminated =
     (case openExchange_begin m n c of
        (Found a, m') \<Rightarrow> (Inr (Some a), m')
      | (Unsupported, m') \<Rightarrow> (Inr None, m')
      | (Created a, m') \<Rightarrow> openExchange_rest m' a (init symbol) terminated)"

text \<open>
  Runs of the pool. An event is the start of an \<^verbatim>\<open>openExchange\<close> call, the settling of the
  \<^verbatim>\<open>init\<close> of a handle created by such a start and still awaited, the start of a
  \<^verbatim>\<open>closeExchange\<close> call, or the settling of a \<^verbatim>\<open>terminate()\<close> that a \<^verbatim>\<open>closeExchange\<close> awaits,
  be it called directly or by an \<^verbatim>\<open>openExchange\<close> whose \<^verbatim>\<open>init\<close> failed. A state of a run is the
  manager, the handles whose \<^verbatim>\<open>init\<close> is awaited, the handles whose \<^verbatim>\<open>terminate()\<close> is awaited
  (once for each call that awaits it), and the handles whose \<^verbatim>\<open>terminate()\<close> has rejected;
  the last three only record what has happened. The argument of a \<^verbatim>\<open>closeExchange\<close> call is
  \<^verbatim>\<open>null\<close> or a reference to a handle of the store; an event that names no such handle, or
  the settling of something that is not awaited, leaves the state as it is.
\<close>

datatype pool_event =
    Open string credentials
  | Init nat "string option"
  | Close "nat option"
  | Terminated nat "string option"

type_synonym pool_state = "manager \<times> nat list \<times> nat list \<times> nat list"

fun pool_step :: "pool_state \<Rightarrow> pool_event \<Rightarrow> pool_state" where
  "pool_step (m, ws, ts, fs) (Open n c) =
     (case openExchange_begin m n c of
        (Created a, m') \<Rightarrow> (m', ws @ [a], ts, fs)
      | (_, m') \<Rightarrow> (m', ws, ts, fs))"
| "pool_step (m, ws, ts, fs) (Init a outcome) =
     (if a \<in> set ws
      then (case openExchange_resume m a outcome of
              (Closing b, m') \<Rightarrow> (m', remove1 a ws, ts @ [b], fs)
            | (Returned r, m') \<Rightarrow> (m', remove1 a ws, ts, fs))
      else (m, ws, ts, fs))"
| "pool_step (m, ws, ts, fs) (Close x) =
     (case x of
        None \<Rightarrow> (m, ws, ts, fs)
      | Some a \<Rightarrow>
          if a < length (heap m)
          then (case closeExchange_begin m x of
                  (Terminating b, m') \<Rightarrow> (m', ws, ts @ [b], fs)
                | (Closed, m') \<Rightarrow> (m', ws, ts, fs))
          else (m, ws, ts, fs))"
| "pool_step (m, ws, ts, fs) (Terminated a outcome) =
     (if a \<in> set ts
      then (snd (closeExchange_resume m a outcome), ws, remove1 a ts,
            case outcome of None \<Rightarrow> fs | Some err \<Rightarrow> fs @ [a])
      else (m, ws, ts, fs))"

definition pool_run :: "entry list \<Rightarrow> pool_event list \<Rightarrow> pool_state" where
  "pool_run xs evs = foldl pool_step (ctor xs, [], [], []) evs"

text \<open>
  An event leaves the handles in termination alone when it is not a call that finds or
  closes a handle whose \<^verbatim>\<open>terminate()\<close> is awaited or has rejected: an \<^verbatim>\<open>openExchange\<close> that
  finds such a handle in the open-set, a \<^verbatim>\<open>closeExchange\<close> of such a handle, or the failure
  of the \<^verbatim>\<open>init\<close> of such a handle, which closes it. A run is undisturbed when each of its
  events leaves the handles in termination alone, in the state in which it happens.
\<close>

fun lets_terminate :: "pool_state \<Rightarrow> pool_event \<Rightarrow> bool" where
  "lets_terminate (m, ws, ts, fs) (Open n c) =
     (case findOpened m n c of Some a \<Rightarrow> a \<notin> set ts \<union> set fs | None \<Rightarrow> True)"
| "lets_terminate (m, ws, ts, fs) (Init a outcome) = (outcome = None \<or> a \<notin> set ts \<union> set fs)"
| "lets_terminate (m, ws, ts, fs) (Close x) =
     (case x of None \<Rightarrow> True | Some a \<Rightarrow> a \<notin> set ts \<union> set fs)"
| "lets_terminate (m, ws, ts, fs) (Terminated a outcome) = True"

fun undisturbed :: "pool_state \<Rightarrow> pool_event list \<Rightarrow> bool" where
  "undisturbed st [] = True"
| "undisturbed st (ev # evs) = (lets_terminate st ev \<and> undisturbed (pool_step st ev) evs)"

text \<open>The identity of the handle behind a reference.\<close>

definition identity :: "manager \<Rightarrow> nat \<Rightarrow> string \<times> credentials" where
  "identity m a = (handle_name (heap m ! a), handle_credentials (heap m ! a))"

text \<open>The references of the open-set point into the store, and no two of them have the
  same identity.\<close>

definition pool_unique :: "manager \<Rightarrow> bool" where
  "pool_unique m =
     ((\<forall>a \<in> set (opened m). a < length (heap m)) \<and> distinct (map (identity m) (opened m)))"

text \<open>The pool invariant: besides, a handle's reference count is positive exactly when
  the handle is in the open-set. \<open>pool_ok_except m xs\<close> is the invariant for the handles
  that are not in \<open>xs\<close>.\<close>

definition pool_ok_except :: "manager \<Rightarrow> nat list \<Rightarrow> bool" where
  "pool_ok_except m xs =
     ((\<forall>a \<in> set (opened m). a < length (heap m)) \<and>
      distinct (map (identity m) (opened m)) \<and>
      (\<forall>a < length (heap m). a \<notin> set xs \<longrightarrow> (0 < refCount (heap m ! a)) = (a \<in> set (opened m))))"

definition pool_ok :: "manager \<Rightarrow> bool" where
  "pool_ok m = pool_ok_except m []"

text \<open>Every handle on which \<^verbatim>\<open>terminate()\<close> has not been called is in the open-set, with a
  positive reference count.\<close>

definition live_open :: "manager \<Rightarrow> bool" where
  "live_open m =
     (\<forall>a < length (heap m).
        terminations (heap m ! a) = 0 \<longrightarrow> 0 < refCount (heap m ! a) \<and> a \<in> set (opened m))"

section \<open>The sequence executor\<close>

text \<open>
  The handle's \<^verbatim>\<open>executeCommand\<close> capability is outside the sources: \<open>'x\<close> is the state of
  the exchange behind the handle, and a capability maps it, the symbol, the action name,
  the params and the session to the way the returned promise settles (\<open>None\<close>: resolved,
  \<open>Some err\<close>: rejected with \<open>err\<close>) and the new state.
\<close>

type_synonym 'x capability =
  "'x \<Rightarrow> string \<Rightarrow> string \<Rightarrow> param list \<Rightarrow> string \<Rightarrow> string option \<times> 'x"

definition executeCommand ::
  "'x capability \<Rightarrow> 'x \<Rightarrow> string \<Rightarrow> string \<Rightarrow> param list \<Rightarrow> string \<Rightarrow> string option \<times> 'x" where
  "executeCommand exchange x symbol n ps session = exchange x symbol n ps session"

text \<open>What a run of a sequence leaves behind: the state of the exchange, the calls of the
  capability and the settling of their promises in the order they happened, and the
  reports written with \<^verbatim>\<open>logger.error\<close>.\<close>

datatype event = Called action | Settled action "string option"

record 'x run =
  exchange_state :: 'x
  events :: "event list"
  reports :: "string list"

text \<open>\<^verbatim>\<open>async.eachSeries\<close>: the iteratee is applied to one item after the other; the next
  item is taken up when the iteratee calls \<^verbatim>\<open>next\<close>; an error passed to \<^verbatim>\<open>next\<close> ends
  the series and goes to the final callback.\<close>

fun eachSeries :: "('a \<Rightarrow> 's \<Rightarrow> 'e option \<times> 's) \<Rightarrow> 'a list \<Rightarrow> 's \<Rightarrow> 'e option \<times> 's" where
  "eachSeries f [] s = (None, s)"
| "eachSeries f (x # xs) s =
     (case f x s of
        (Some err, s') \<Rightarrow> (Some err, s')
      | (None, s') \<Rightarrow> eachSeries f xs s')"

text \<open>The report \<^verbatim>\<open>`${action.name} FAILED: ${err}`\<close>.\<close>

definition failure_report :: "action \<Rightarrow> string \<Rightarrow> string" where
  "failure_report a err = action_name a @ '' FAILED: '' @ err"

text \<open>The iteratee of \<^verbatim>\<open>executeCommandSequence\<close>; the value it returns is the argument of
  its call of \<^verbatim>\<open>next\<close>.\<close>

definition iteratee ::
  "'x capability \<Rightarrow> string \<Rightarrow> string \<Rightarrow> action \<Rightarrow> 'x run \<Rightarrow> string option \<times> 'x run" where
  "iteratee exchange symbol session a r =
     (case executeCommand exchange (exchange_state r) symbol (action_name a) (params a) session of
        (None, x') \<Rightarrow>
          (None, r\<lparr>exchange_state := x', events := events r @ [Called a, Settled a None]\<rparr>)
      | (Some err, x') \<Rightarrow>
          (None, r\<lparr>exchange_state := x', events := events r @ [Called a, Settled a (Some err)],
                   reports := reports r @ [failure_report a err]\<rparr>))"

text \<open>\<^verbatim>\<open>executeCommandSequence\<close>; \<open>session\<close> is the value of \<^verbatim>\<open>uuid()\<close>.\<close>

definition executeCommandSequence ::
  "'x capability \<Rightarrow> string \<Rightarrow> string \<Rightarrow> string \<Rightarrow> 'x run \<Rightarrow> promise \<times> 'x run" where
  "executeCommandSequence exchange symbol commands session r =
     (if symbol = [] \<or> commands = [] then (Resolved, r)
      else
        (case eachSeries (iteratee exchange symbol session) (parseActions commands) r of
           (Some err, r') \<Rightarrow> (Rejected err, r')
         | (None, r') \<Rightarrow> (Resolved, r')))"

section \<open>The message dispatcher\<close>

text \<open>
  \<^verbatim>\<open>executeMessage\<close> calls an async callback for every block. The callback runs until its
  first await, \<^verbatim>\<open>await this.openExchange(...)\<close>, and is suspended there whatever the
  state of the promise it awaits; \<^verbatim>\<open>executeMessage\<close> goes on with the next block, then
  calls \<^verbatim>\<open>handleAlerts\<close> and returns the array \<open>all\<close>. A suspended callback is a \<open>task\<close>:
  its block and how far \<^verbatim>\<open>openExchange\<close> got. \<open>block_resume\<close> is the rest of the callback,
  run after \<^verbatim>\<open>executeMessage\<close> has returned.
\<close>

datatype completion = Seed | Sequence nat string string

record task =
  task_exchangeName :: string
  task_symbol :: string
  task_actions :: string
  task_opening :: open_state

record dispatch =
  pool :: manager
  all :: "completion list"
  suspended :: "task list"
  sent :: "string list"

definition block_callback ::
  "credentials list \<Rightarrow> dispatch \<Rightarrow> string \<times> string \<times> string \<Rightarrow> dispatch" where
  "block_callback creds d blk =
     (case blk of (exchangeName, symbol, actions) \<Rightarrow>
        (case find (\<lambda>item. cred_name item = exchangeName) creds of
           Some exchangeCredentials \<Rightarrow>
             (case openExchange_begin (pool d) exchangeName exchangeCredentials of
                (opn, m') \<Rightarrow>
                  d\<lparr>pool := m',
                    suspended := suspended d @
                      [\<lparr>task_exchangeName = exchangeName, task_symbol = symbol,
                        task_actions = actions, task_opening = opn\<rparr>]\<rparr>)
         | None \<Rightarrow>
             d\<lparr>pool := (pool d)\<lparr>logged := logged (pool d) @
                  [''No credentials for '' @ [CHR 0x27] @ exchangeName @ [CHR 0x27] @ ''. Skipping'']\<rparr>\<rparr>))"

text \<open>\<^verbatim>\<open>executeMessage\<close> up to its return: the first component is the array returned, as it is
  at that moment.\<close>

definition executeMessage :: "manager \<Rightarrow> string \<Rightarrow> credentials list \<Rightarrow> completion list \<times> dispatch" where
  "executeMessage m msg creds =
     (let d0 = \<lparr>pool = m, all = [Seed], suspended = [], sent = []\<rparr>;
          d1 = foldl (block_callback creds) d0 (commandBlocks msg);
          d2 = (case handleAlerts msg of None \<Rightarrow> d1 | Some t \<Rightarrow> d1\<lparr>sent := sent d1 @ [t]\<rparr>)
      in (all d2, d2))"

text \<open>The rest of a block's callback: \<^verbatim>\<open>openExchange\<close> completes (\<open>outcome\<close> is how the
  \<^verbatim>\<open>init\<close> of a new handle settled, \<open>terminated\<close> how its \<^verbatim>\<open>terminate()\<close> settled if that is
  called), and the completion of the block's sequence is pushed onto \<open>all\<close>, or the failure
  to open is reported; when \<^verbatim>\<open>openExchange\<close> rejects, the callback ends there.\<close>

definition block_resume :: "dispatch \<Rightarrow> task \<Rightarrow> string option \<Rightarrow> string option \<Rightarrow> dispatch" where
  "block_resume d t outcome terminated =
     (case (case task_opening t of
              Found a \<Rightarrow> (Inr (Some a), pool d)
            | Unsupported \<Rightarrow> (Inr None, pool d)
            | Created a \<Rightarrow> openExchange_rest (pool d) a outcome terminated) of
        (Inr (Some a), m') \<Rightarrow>
          d\<lparr>pool := m', all := all d @ [Sequence a (task_symbol t) (task_actions t)]\<rparr>
      | (Inr None, m') \<Rightarrow>
          d\<lparr>pool := m'\<lparr>logged := logged m' @
               [''Exchange '' @ [CHR 0x27] @ task_exchangeName t @ [CHR 0x27] @ '' is not supported'']\<rparr>\<rparr>
      | (Inl err, m') \<Rightarrow> d\<lparr>pool := m'\<rparr>)"

section \<open>Notions of the specification\<close>

text \<open>The comma-delimited pieces of a string: the text before the first comma, between
  two commas, and after the last one.\<close>

fun split_commas :: "string \<Rightarrow> string list" where
  "split_commas [] = [[]]"
| "split_commas (x # xs) =
     (if x = CHR '','' then [] # split_commas xs
      else (x # hd (split_commas xs)) # tl (split_commas xs))"

text \<open>The text after a quoted string at the beginning of a text: a double quote, one or
  more characters other than double quotes, and a double quote.\<close>

definition quoted_end :: "string \<Rightarrow> string option" where
  "quoted_end s =
     (case s of
        [] \<Rightarrow> None
      | x # xs \<Rightarrow>
          if x = CHR 0x22 \<and> takeWhile not_quote xs \<noteq> [] \<and> dropWhile not_quote xs \<noteq> []
          then Some (tl (dropWhile not_quote xs)) else None)"

text \<open>The text after the first quoted string that begins before any comma.\<close>

fun token_end :: "string \<Rightarrow> string option" where
  "token_end [] = None"
| "token_end (x # xs) =
     (case quoted_end (x # xs) of
        Some r \<Rightarrow> Some r
      | None \<Rightarrow> if x = CHR '','' then None else token_end xs)"

text \<open>
  The tokens of an argument string. A token begins at a character that is not a comma.
  When its first character is followed, before any comma, by a quoted string, the token
  ends with the closing quote of the first such string, whatever stands between the
  quotes; otherwise it ends before the next comma, or with the string.
\<close>

function tokens :: "string \<Rightarrow> string list" where
  "tokens [] = []"
| "tokens (x # xs) =
     (if x = CHR '','' then tokens xs
      else (case token_end xs of
              Some r \<Rightarrow> take (length (x # xs) - length r) (x # xs) # tokens r
            | None \<Rightarrow> (x # takeWhile not_comma xs) # tokens (dropWhile not_comma xs)))"
  by pat_completeness auto
termination
proof (relation "measure length")
  have q: "length r < length s" if "quoted_end s = Some r" for s r
  proof -
    from that obtain x xs where s: "s = x # xs" and r: "r = tl (dropWhile not_quote xs)"
      by (cases s) (auto simp: quoted_end_def split: if_splits)
    have "length r \<le> length (dropWhile not_quote xs)" unfolding r by simp
    also have "\<dots> \<le> length xs" by (rule length_dropWhile_le)
    finally show ?thesis unfolding s by simp
  qed
  have t: "token_end s = Some r \<Longrightarrow> length r < length s" for s r
  proof (induction s)
    case Nil
    then show ?case by simp
  next
    case (Cons x xs)
    show ?case
    proof (cases "quoted_end (x # xs)")
      case None
      with Cons show ?thesis by (auto split: if_splits)
    next
      case (Some r')
      with Cons.prems q[OF Some] show ?thesis by simp
    qed
  qed
  show "wf (measure length)" by simp
  show "(xs, x # xs) \<in> measure length" for x :: char and xs by simp
  show "(r, x # xs) \<in> measure length" if "token_end xs = Some r" for x :: char and xs r
    using t[OF that] by simp
  show "(dropWhile not_comma xs, x # xs) \<in> measure length" for x :: char and xs
    by (simp add: length_dropWhile_le less_Suc_eq_le)
qed

text \<open>A piece that ends with its only quoted string, which is not empty: a text without
  a double quote, empty or not, then \<^verbatim>\<open>"v"\<close> with \<open>v\<close> not empty and without a double quote.\<close>

definition ends_quoted :: "string \<Rightarrow> bool" where
  "ends_quoted t =
     (case dropWhile not_quote t of
        [] \<Rightarrow> False
      | q # r \<Rightarrow> takeWhile not_quote r \<noteq> [] \<and> dropWhile not_quote r = [CHR 0x22])"

text \<open>Comma-delimited pieces with plain quoting: a piece has no double quote, or it ends
  with its only quoted string, not empty; and when that string is the whole piece, no
  later piece has a double quote.\<close>

fun plain_quoting :: "string list \<Rightarrow> bool" where
  "plain_quoting [] = True"
| "plain_quoting (t # ts) =
     ((CHR 0x22 \<notin> set t \<or>
       (ends_quoted t \<and> (hd t \<noteq> CHR 0x22 \<or> (\<forall>u \<in> set ts. CHR 0x22 \<notin> set u)))) \<and>
      plain_quoting ts)"

text \<open>Collapsing every run of whitespace to a single space.\<close>

function collapse :: "string \<Rightarrow> string" where
  "collapse [] = []"
| "collapse (x # xs) =
     (if is_space x then CHR '' '' # collapse (dropWhile is_space xs) else x # collapse xs)"
  by pat_completeness auto
termination
  by (relation "measure length") (auto simp: length_dropWhile_le less_Suc_eq_le)

text \<open>Removing the first occurrence of a word from a text.\<close>

fun delete_first :: "string \<Rightarrow> string \<Rightarrow> string" where
  "delete_first w [] = []"
| "delete_first w (x # xs) =
     (if prefix w (x # xs) then drop (length w) (x # xs) else x # delete_first w xs)"

text \<open>The alert marker.\<close>

definition marker :: string where
  "marker = ''{!}''"

text \<open>How the promises of a list of actions settle when the actions are executed one
  after the other, starting from state \<open>x\<close> of the exchange.\<close>

fun settlements :: "'x capability \<Rightarrow> string \<Rightarrow> string \<Rightarrow> 'x \<Rightarrow> action list \<Rightarrow> string option list" where
  "settlements exchange symbol session x [] = []"
| "settlements exchange symbol session x (a # as) =
     (case exchange x symbol (action_name a) (params a) session of
        (out, x') \<Rightarrow> out # settlements exchange symbol session x' as)"

text \<open>The trace and the failure reports of actions that settle as given.\<close>

definition trace_of :: "action list \<Rightarrow> string option list \<Rightarrow> event list" where
  "trace_of as outs = concat (map (\<lambda>(a, out). [Called a, Settled a out]) (zip as outs))"

definition failures_of :: "action list \<Rightarrow> string option list \<Rightarrow> string list" where
  "failures_of as outs =
     concat (map (\<lambda>(a, out). case out of None \<Rightarrow> [] | Some err \<Rightarrow> [failure_report a err])
                 (zip as outs))"

section \<open>Example data\<close>

definition bitfinex :: entry where
  "bitfinex = \<lparr>entry_name = ''bitfinex'', description = ''Bitfinex''\<rparr>"

definition account :: credentials where
  "account = \<lparr>cred_name = ''bitfinex'', cred_exchange = None, cred_keys = [(''key'', ''k1'')]\<rparr>"

text \<open>A second account on the same exchange.\<close>

definition second :: credentials where
  "second = account\<lparr>cred_name := ''second''\<rparr>"

text \<open>The pool after one \<^verbatim>\<open>openExchange\<close> for that account, and after a second one.\<close>

definition opened_once :: manager where
  "opened_once = \<lparr>opened = [0], exchanges = [bitfinex],
     heap = [\<lparr>handle_name = ''bitfinex'', handle_credentials = account, handle_class = ''bitfinex'',
              refCount = 1, terminations = 0\<rparr>], logged = []\<rparr>"

definition opened_twice :: manager where
  "opened_twice = opened_once\<lparr>heap := [(heap opened_once ! 0)\<lparr>refCount := 2\<rparr>]\<rparr>"

definition closed_again :: manager where
  "closed_again =
     opened_once\<lparr>heap := [(heap opened_once ! 0)\<lparr>refCount := 0, terminations := 1\<rparr>], opened := []\<rparr>"

text \<open>The pool while the last \<^verbatim>\<open>closeExchange\<close> of that handle awaits \<^verbatim>\<open>terminate()\<close>, and the
  pool when an \<^verbatim>\<open>openExchange\<close> was called in that window.\<close>

definition closing_last :: manager where
  "closing_last =
     opened_once\<lparr>heap := [(heap opened_once ! 0)\<lparr>refCount := 0, terminations := 1\<rparr>]\<rparr>"

definition reopened :: manager where
  "reopened =
     opened_once\<lparr>heap := [(heap opened_once ! 0)\<lparr>refCount := 1, terminations := 1\<rparr>], opened := []\<rparr>"

text \<open>The pool when the handle of the first account has been terminated and removed, and the
  \<^verbatim>\<open>closeExchange\<close> after the failed \<^verbatim>\<open>init\<close> of the handle of the second account awaits
  \<^verbatim>\<open>terminate()\<close>.\<close>

definition closing_second :: manager where
  "closing_second =
     closed_again\<lparr>heap := heap closed_again @
                            [(heap closed_again ! 0)\<lparr>handle_credentials := second\<rparr>],
                  opened := [1], logged := [''init failed'']\<rparr>"

text \<open>An exchange whose \<^verbatim>\<open>executeCommand\<close> rejects every \<^verbatim>\<open>sell\<close>, and three actions.\<close>

definition flaky :: "nat capability" where
  "flaky x symbol n ps session = (if n = ''sell'' then Some ''rejected'' else None, Suc x)"

definition buy1 :: action where
  "buy1 = \<lparr>action_name = ''buy'', params = [\<lparr>name = [], value = ''1'', index = 0\<rparr>]\<rparr>"

definition sell2 :: action where
  "sell2 = \<lparr>action_name = ''sell'', params = [\<lparr>name = [], value = ''2'', index = 0\<rparr>]\<rparr>"

definition wait3 :: action where
  "wait3 = \<lparr>action_name = ''wait'', params = [\<lparr>name = [], value = ''3'', index = 0\<rparr>]\<rparr>"

text \<open>The suspended callback of the block \<^verbatim>\<open>bitfinex(BTCUSD){buy(1)}\<close>, and the dispatcher as
  \<^verbatim>\<open>executeMessage\<close> leaves it for the message
  \<^verbatim>\<open>kraken(XBTUSD){sell(1)} bitfinex(BTCUSD){buy(1)}\<close> and the credentials of \<open>account\<close>.\<close>

definition pending :: task where
  "pending = \<lparr>task_exchangeName = ''bitfinex'', task_symbol = ''BTCUSD'', task_actions = ''buy(1)'',
              task_opening = Created 0\<rparr>"

definition returned :: dispatch where
  "returned =
     \<lparr>pool = opened_once\<lparr>logged :=
        [''No credentials for '' @ [CHR 0x27] @ ''kraken'' @ [CHR 0x27] @ ''. Skipping'']\<rparr>,
      all = [Seed], suspended = [pending], sent = []\<rparr>"

section \<open>Properties of the pool: the invariant\<close>

lemma nth_update_cases:
  "xs[a := h] ! b = (if b = a \<and> a < length xs then h else xs ! b)"
  by (cases "a < length xs") (auto simp: nth_list_update list_update_beyond)

lemma identity_update:
  assumes "handle_name h = handle_name (heap m ! a)"
    and "handle_credentials h = handle_credentials (heap m ! a)"
  shows "identity (m\<lparr>heap := (heap m)[a := h]\<rparr>) = identity m"
    and "identity (m\<lparr>heap := (heap m)[a := h], opened := os\<rparr>) = identity m"
  using assms by (simp_all add: fun_eq_iff identity_def nth_update_cases)

lemma identity_opened [simp]: "identity (m\<lparr>opened := os\<rparr>) = identity m"
  by (simp add: fun_eq_iff identity_def)

lemma identity_logged [simp]: "identity (m\<lparr>logged := l\<rparr>) = identity m"
  by (simp add: fun_eq_iff identity_def)

lemma pool_unique_update:
  assumes "pool_unique m"
    and "handle_name h = handle_name (heap m ! a)"
    and "handle_credentials h = handle_credentials (heap m ! a)"
  shows "pool_unique (m\<lparr>heap := (heap m)[a := h]\<rparr>)"
  using assms(1) unfolding pool_unique_def identity_update(1)[OF assms(2,3)]
  by auto

lemma pool_unique_filter:
  "pool_unique m \<Longrightarrow> pool_unique (m\<lparr>opened := filter P (opened m)\<rparr>)"
  by (auto simp: pool_unique_def distinct_map_filter)

lemma pool_unique_logged [simp]: "pool_unique (m\<lparr>logged := l\<rparr>) = pool_unique m"
  by (simp add: pool_unique_def)

lemma findOpened_SomeD:
  "findOpened m n c = Some a \<Longrightarrow> a \<in> set (opened m) \<and> matches (heap m ! a) n c"
  by (auto simp: findOpened_def find_Some_iff)

lemma findOpened_NoneD:
  "findOpened m n c = None \<Longrightarrow> b \<in> set (opened m) \<Longrightarrow> identity m b \<noteq> (n, c)"
  by (auto simp: findOpened_def find_None_iff identity_def matches_def)

lemma pool_unique_create:
  assumes "pool_unique m" and "findOpened m n c = None"
  shows "pool_unique (m\<lparr>heap := heap m @ [instantiate e n c], opened := opened m @ [length (heap m)]\<rparr>)"
    (is "pool_unique ?m")
proof -
  have old: "\<And>b. b \<in> set (opened m) \<Longrightarrow> identity ?m b = identity m b"
    using assms(1) by (auto simp: identity_def pool_unique_def nth_append)
  have new: "identity ?m (length (heap m)) = (n, c)"
    by (simp add: identity_def instantiate_def)
  have d: "distinct (map (identity ?m) (opened m))"
    using assms(1) old by (simp add: pool_unique_def cong: map_cong)
  show ?thesis
    unfolding pool_unique_def
  proof (intro conjI)
    show "\<forall>a\<in>set (opened ?m). a < length (heap ?m)"
      using assms(1) by (auto simp: pool_unique_def)
    have "(n, c) \<notin> identity ?m ` set (opened m)"
    proof
      assume "(n, c) \<in> identity ?m ` set (opened m)"
      then obtain b where "b \<in> set (opened m)" and "identity ?m b = (n, c)" by auto
      with old[of b] findOpened_NoneD[OF assms(2), of b] show False by simp
    qed
    then show "distinct (map (identity ?m) (opened ?m))"
      using d new by simp
  qed
qed

lemma pool_unique_begin:
  assumes "pool_unique m"
  shows "pool_unique (snd (openExchange_begin m n c))"
proof (cases "findOpened m n c")
  case (Some a)
  have "pool_unique (m\<lparr>heap := (heap m)[a := addReference (heap m ! a)]\<rparr>)"
    using assms by (intro pool_unique_update) (simp_all add: addReference_def)
  with Some show ?thesis by (simp add: openExchange_begin_def)
next
  case None
  show ?thesis
  proof (cases "find (\<lambda>el. entry_name el = exchangeName_of n c) (exchanges m)")
    case N2: None
    with None assms show ?thesis by (simp add: openExchange_begin_def)
  next
    case (Some e)
    with None pool_unique_create[OF assms None] show ?thesis by (simp add: openExchange_begin_def)
  qed
qed

lemma pool_unique_close_begin:
  assumes "pool_unique m"
  shows "pool_unique (snd (closeExchange_begin m x))"
proof (cases x)
  case None
  with assms show ?thesis by (simp add: closeExchange_begin_def)
next
  case (Some a)
  have u: "\<And>h. handle_name h = handle_name (heap m ! a) \<Longrightarrow>
                 handle_credentials h = handle_credentials (heap m ! a) \<Longrightarrow>
                 pool_unique (m\<lparr>heap := (heap m)[a := h]\<rparr>)"
    using assms by (rule pool_unique_update)
  show ?thesis
    using Some assms
    by (auto simp: closeExchange_begin_def removeReference_def terminate_def u split: option.split)
qed

lemma pool_unique_close_resume:
  "pool_unique m \<Longrightarrow> pool_unique (snd (closeExchange_resume m a out))"
  by (cases out) (simp_all add: closeExchange_resume_def pool_unique_filter)

lemma pool_unique_resume:
  assumes "pool_unique m"
  shows "pool_unique (snd (openExchange_resume m a out))"
proof (cases out)
  case None
  with assms show ?thesis by (simp add: openExchange_resume_def)
next
  case (Some err)
  have "pool_unique (snd (closeExchange_begin (m\<lparr>logged := logged m @ [err]\<rparr>) (Some a)))"
    using assms by (intro pool_unique_close_begin) simp
  with Some show ?thesis
    by (auto simp: openExchange_resume_def split: prod.split close_state.split)
qed


lemma pool_step_unique:
  assumes "pool_unique (fst st)"
  shows "pool_unique (fst (pool_step st ev))"
proof -
  obtain m ws ts fs where st: "st = (m, ws, ts, fs)" by (cases st)
  from assms st have u: "pool_unique m" by simp
  show ?thesis
  proof (cases ev)
    case (Open n c)
    with st pool_unique_begin[OF u, of n c] show ?thesis
      by (auto split: prod.split open_state.split)
  next
    case (Init a out)
    with st pool_unique_resume[OF u, of a out] u show ?thesis
      by (auto split: prod.split init_state.split)
  next
    case (Close x)
    with st pool_unique_close_begin[OF u, of x] u show ?thesis
      by (auto split: prod.split close_state.split option.split)
  next
    case (Terminated a out)
    with st pool_unique_close_resume[OF u, of a out] u show ?thesis
      by simp
  qed
qed

lemma pool_foldl_unique:
  "pool_unique (fst st) \<Longrightarrow> pool_unique (fst (foldl pool_step st evs))"
  by (induction evs arbitrary: st) (simp_all add: pool_step_unique)

lemma close_begin_cases:
  "closeExchange_begin m (Some a) =
     (if findOpened m (handle_name (heap m ! a)) (handle_credentials (heap m ! a)) = None
      then (Closed, m)
      else if refCount (heap m ! a) \<le> 1
      then (Terminating a,
            m\<lparr>heap := (heap m)[a := (heap m ! a)\<lparr>refCount := refCount (heap m ! a) - 1,
                                                  terminations := Suc (terminations (heap m ! a))\<rparr>]\<rparr>)
      else (Closed, m\<lparr>heap := (heap m)[a := (heap m ! a)\<lparr>refCount := refCount (heap m ! a) - 1\<rparr>]\<rparr>))"
  by (auto simp: closeExchange_begin_def removeReference_def terminate_def split: option.split)

lemma close_cases:
  "closeExchange m (Some a) None =
     (Resolved,
      if findOpened m (handle_name (heap m ! a)) (handle_credentials (heap m ! a)) = None
      then m
      else if refCount (heap m ! a) \<le> 1
      then m\<lparr>heap := (heap m)[a := (heap m ! a)\<lparr>refCount := refCount (heap m ! a) - 1,
                                                 terminations := Suc (terminations (heap m ! a))\<rparr>],
             opened := filter (\<lambda>item. item \<noteq> a) (opened m)\<rparr>
      else m\<lparr>heap := (heap m)[a := (heap m ! a)\<lparr>refCount := refCount (heap m ! a) - 1\<rparr>]\<rparr>)"
  by (simp add: closeExchange_def close_begin_cases closeExchange_resume_def)

lemma begin_cases:
  "openExchange_begin m n c =
     (case findOpened m n c of
        Some a \<Rightarrow>
          (Found a, m\<lparr>heap := (heap m)[a := (heap m ! a)\<lparr>refCount := refCount (heap m ! a) + 1\<rparr>]\<rparr>)
      | None \<Rightarrow>
          (case find (\<lambda>el. entry_name el = exchangeName_of n c) (exchanges m) of
             None \<Rightarrow> (Unsupported, m)
           | Some e \<Rightarrow>
               (Created (length (heap m)),
                m\<lparr>heap := heap m @ [instantiate e n c], opened := opened m @ [length (heap m)]\<rparr>)))"
  by (simp add: openExchange_begin_def addReference_def split: option.split)

text \<open>The handles that are not in termination: the effect of the steps on their counts.\<close>

lemma counts_begin:
  assumes u: "pool_unique m"
    and k: "\<forall>a<length (heap m). a \<notin> X \<longrightarrow> (0 < refCount (heap m ! a)) = (a \<in> set (opened m))"
    and l: "case findOpened m n c of Some a \<Rightarrow> a \<notin> X | None \<Rightarrow> True"
    and b: "openExchange_begin m n c = (r, m')"
  shows "(\<forall>a<length (heap m'). a \<notin> X \<longrightarrow> (0 < refCount (heap m' ! a)) = (a \<in> set (opened m'))) \<and>
         length (heap m) \<le> length (heap m') \<and>
         (\<forall>a<length (heap m). refCount (heap m' ! a) \<le> 0 \<longrightarrow> a \<in> X \<longrightarrow> refCount (heap m ! a) \<le> 0) \<and>
         (\<forall>a<length (heap m). a \<in> X \<longrightarrow> heap m' ! a = heap m ! a) \<and>
         (\<forall>a. r = Created a \<longrightarrow> a < length (heap m'))"
proof (cases "findOpened m n c")
  case (Some a)
  then have a: "a \<in> set (opened m)" by (simp add: findOpened_SomeD)
  with u have al: "a < length (heap m)" by (simp add: pool_unique_def)
  from l Some have ax: "a \<notin> X" by simp
  with k a al have pos: "0 < refCount (heap m ! a)" by simp
  from b Some have m': "m' = m\<lparr>heap := (heap m)[a := (heap m ! a)\<lparr>refCount := refCount (heap m ! a) + 1\<rparr>]\<rparr>"
    and r: "r = Found a"
    by (simp_all add: begin_cases)
  show ?thesis
    using k a al ax pos unfolding m' r
    by (auto simp: nth_update_cases)
next
  case None
  show ?thesis
  proof (cases "find (\<lambda>el. entry_name el = exchangeName_of n c) (exchanges m)")
    case N2: None
    with None b have "m' = m" "r = Unsupported" by (simp_all add: begin_cases)
    with k show ?thesis by simp
  next
    case (Some e)
    with None b
    have m': "m' = m\<lparr>heap := heap m @ [instantiate e n c], opened := opened m @ [length (heap m)]\<rparr>"
      and r: "r = Created (length (heap m))"
      by (simp_all add: begin_cases)
    have fresh: "length (heap m) \<notin> set (opened m)"
      using u by (auto simp: pool_unique_def)
    show ?thesis
      using k fresh unfolding m' r
      by (auto simp: nth_append instantiate_def less_Suc_eq)
  qed
qed

lemma counts_close_begin:
  assumes k: "\<forall>b<length (heap m). b \<notin> X \<longrightarrow> (0 < refCount (heap m ! b)) = (b \<in> set (opened m))"
    and a: "a < length (heap m)" "a \<notin> X"
    and c: "closeExchange_begin m (Some a) = (r, m')"
  shows "length (heap m') = length (heap m) \<and> opened m' = opened m \<and>
         (\<forall>b<length (heap m). b \<noteq> a \<longrightarrow> heap m' ! b = heap m ! b) \<and>
         (case r of
            Closed \<Rightarrow> (0 < refCount (heap m' ! a)) = (a \<in> set (opened m'))
          | Terminating b \<Rightarrow> b = a \<and> refCount (heap m' ! a) \<le> 0)"
proof (cases "findOpened m (handle_name (heap m ! a)) (handle_credentials (heap m ! a))")
  case None
  with c have "m' = m" "r = Closed" by (simp_all add: close_begin_cases)
  with k a show ?thesis by simp
next
  case (Some ex)
  show ?thesis
  proof (cases "refCount (heap m ! a) \<le> 1")
    case True
    with Some c show ?thesis
      using a by (auto simp: close_begin_cases nth_update_cases)
  next
    case False
    then have "0 < refCount (heap m ! a)" by simp
    with k a have "a \<in> set (opened m)" by simp
    with Some c False show ?thesis
      using a by (auto simp: close_begin_cases nth_update_cases)
  qed
qed

lemma counts_step:
  assumes u: "pool_unique m"
    and k: "\<forall>a<length (heap m). a \<notin> set ts \<union> set fs \<longrightarrow>
              (0 < refCount (heap m ! a)) = (a \<in> set (opened m))"
    and w: "\<forall>a\<in>set ws. a < length (heap m)"
    and d: "distinct ts"
    and t: "\<forall>a\<in>set ts. a < length (heap m) \<and> refCount (heap m ! a) \<le> 0"
    and l: "lets_terminate (m, ws, ts, fs) ev"
    and s: "pool_step (m, ws, ts, fs) ev = (m', ws', ts', fs')"
  shows "(\<forall>a<length (heap m'). a \<notin> set ts' \<union> set fs' \<longrightarrow>
            (0 < refCount (heap m' ! a)) = (a \<in> set (opened m'))) \<and>
         (\<forall>a\<in>set ws'. a < length (heap m')) \<and> distinct ts' \<and>
         (\<forall>a\<in>set ts'. a < length (heap m') \<and> refCount (heap m' ! a) \<le> 0)"
proof (cases ev)
  case (Open n c)
  obtain r m1 where b: "openExchange_begin m n c = (r, m1)" by (cases "openExchange_begin m n c")
  from l Open have l': "case findOpened m n c of Some a \<Rightarrow> a \<notin> set ts \<union> set fs | None \<Rightarrow> True"
    by simp
  note f = counts_begin[OF u k l' b]
  from s Open b have m': "m' = m1" and ts': "ts' = ts" and fs': "fs' = fs"
    and ws': "ws' = (case r of Created a \<Rightarrow> ws @ [a] | _ \<Rightarrow> ws)"
    by (auto split: open_state.splits)
  have "\<forall>a\<in>set ws'. a < length (heap m1)"
    using f w unfolding ws' by (cases r) (auto intro: less_le_trans)
  moreover have "\<forall>a\<in>set ts. a < length (heap m1) \<and> refCount (heap m1 ! a) \<le> 0"
    using f t by (auto intro: less_le_trans)
  ultimately show ?thesis
    using f d unfolding m' ts' fs' by blast
next
  case (Init a out)
  show ?thesis
  proof (cases "a \<in> set ws")
    case False
    with s Init k w d t show ?thesis by auto
  next
    case True
    with w have al: "a < length (heap m)" by simp
    show ?thesis
    proof (cases out)
      case None
      with s Init True have "m' = m" "ws' = remove1 a ws" "ts' = ts" "fs' = fs"
        by (auto simp: openExchange_resume_def)
      with k w d t show ?thesis by (auto dest: notin_set_remove1)
    next
      case (Some err)
      let ?m = "m\<lparr>logged := logged m @ [err]\<rparr>"
      from l Init Some have ax: "a \<notin> set ts \<union> set fs" by simp
      obtain r m1 where c: "closeExchange_begin ?m (Some a) = (r, m1)"
        by (cases "closeExchange_begin ?m (Some a)")
      have k': "\<forall>b<length (heap ?m). b \<notin> set ts \<union> set fs \<longrightarrow>
                  (0 < refCount (heap ?m ! b)) = (b \<in> set (opened ?m))"
        using k by simp
      have al': "a < length (heap ?m)" using al by simp
      note f = counts_close_begin[OF k' al' ax c]
      from s Init Some True c have m': "m' = m1" and ws': "ws' = remove1 a ws" and fs': "fs' = fs"
        and ts': "ts' = (case r of Closed \<Rightarrow> ts | Terminating b \<Rightarrow> ts @ [b])"
        by (auto simp: openExchange_resume_def split: close_state.splits)
      show ?thesis
      proof (cases r)
        case Closed
        with f k w d t ax al show ?thesis
          unfolding m' ws' fs' ts'
          by (auto dest: notin_set_remove1)
      next
        case (Terminating b)
        with f k w d t ax al show ?thesis
          unfolding m' ws' fs' ts'
          by (auto dest: notin_set_remove1)
      qed
    qed
  qed
next
  case (Close x)
  show ?thesis
  proof (cases x)
    case None
    with s Close k w d t show ?thesis by auto
  next
    case (Some a)
    show ?thesis
    proof (cases "a < length (heap m)")
      case False
      with s Close Some k w d t show ?thesis by auto
    next
      case True
      from l Close Some have ax: "a \<notin> set ts \<union> set fs" by simp
      obtain r m1 where c: "closeExchange_begin m (Some a) = (r, m1)"
        by (cases "closeExchange_begin m (Some a)")
      note f = counts_close_begin[OF k True ax c]
      from s Close Some True c have m': "m' = m1" and ws': "ws' = ws" and fs': "fs' = fs"
        and ts': "ts' = (case r of Closed \<Rightarrow> ts | Terminating b \<Rightarrow> ts @ [b])"
        by (auto split: close_state.splits)
      show ?thesis
      proof (cases r)
        case Closed
        with f k w d t ax True show ?thesis
          unfolding m' ws' fs' ts'
          by auto
      next
        case (Terminating b)
        with f k w d t ax True show ?thesis
          unfolding m' ws' fs' ts'
          by auto
      qed
    qed
  qed
next
  case (Terminated a out)
  show ?thesis
  proof (cases "a \<in> set ts")
    case False
    with s Terminated k w d t show ?thesis by auto
  next
    case True
    show ?thesis
    proof (cases out)
      case None
      with s Terminated True
      have m': "m' = m\<lparr>opened := filter (\<lambda>item. item \<noteq> a) (opened m)\<rparr>" and "ws' = ws"
        and ts': "ts' = remove1 a ts" and "fs' = fs"
        by (auto simp: closeExchange_resume_def)
      with k w d t True show ?thesis
        by (auto dest: notin_set_remove1)
    next
      case (Some err)
      with s Terminated True
      have "m' = m" "ws' = ws" "ts' = remove1 a ts" "fs' = fs @ [a]"
        by (auto simp: closeExchange_resume_def)
      with k w d t True show ?thesis
        by (auto dest: notin_set_remove1)
    qed
  qed
qed

lemma counts_foldl:
  assumes "pool_unique m"
    and "\<forall>a<length (heap m). a \<notin> set ts \<union> set fs \<longrightarrow>
           (0 < refCount (heap m ! a)) = (a \<in> set (opened m))"
    and "\<forall>a\<in>set ws. a < length (heap m)"
    and "distinct ts"
    and "\<forall>a\<in>set ts. a < length (heap m) \<and> refCount (heap m ! a) \<le> 0"
    and "undisturbed (m, ws, ts, fs) evs"
    and "foldl pool_step (m, ws, ts, fs) evs = (m', ws', ts', fs')"
  shows "\<forall>a<length (heap m'). a \<notin> set ts' \<union> set fs' \<longrightarrow>
           (0 < refCount (heap m' ! a)) = (a \<in> set (opened m'))"
  using assms
proof (induction evs arbitrary: m ws ts fs)
  case Nil
  then show ?case by simp
next
  case (Cons ev evs)
  obtain m1 ws1 ts1 fs1 where s: "pool_step (m, ws, ts, fs) ev = (m1, ws1, ts1, fs1)"
    by (cases "pool_step (m, ws, ts, fs) ev")
  from Cons.prems(6) have l: "lets_terminate (m, ws, ts, fs) ev"
    and rest: "undisturbed (m1, ws1, ts1, fs1) evs"
    by (simp_all add: s)
  from pool_step_unique[of "(m, ws, ts, fs)" ev] Cons.prems(1) s have u1: "pool_unique m1" by simp
  note f = counts_step[OF Cons.prems(1-5) l s]
  from Cons.prems(7) s have run: "foldl pool_step (m1, ws1, ts1, fs1) evs = (m', ws', ts', fs')"
    by simp
  show ?case
    by (rule Cons.IH[OF u1 _ _ _ _ rest run]) (use f in blast)+
qed

text \<open>The handles on which \<^verbatim>\<open>terminate()\<close> has not been called.\<close>

lemma live_step:
  assumes u: "pool_unique m"
    and v: "live_open m"
    and w: "\<forall>a\<in>set ws. a < length (heap m)"
    and t: "\<forall>a\<in>set ts. a < length (heap m) \<and> 0 < terminations (heap m ! a)"
    and s: "pool_step (m, ws, ts, fs) ev = (m', ws', ts', fs')"
  shows "live_open m' \<and> (\<forall>a\<in>set ws'. a < length (heap m')) \<and>
         (\<forall>a\<in>set ts'. a < length (heap m') \<and> 0 < terminations (heap m' ! a))"
proof (cases ev)
  case (Open n c)
  have fresh: "length (heap m) \<notin> set (opened m)"
    using u by (auto simp: pool_unique_def)
  show ?thesis
  proof (cases "findOpened m n c")
    case (Some a)
    then have a: "a \<in> set (opened m)" by (simp add: findOpened_SomeD)
    with u have al: "a < length (heap m)" by (simp add: pool_unique_def)
    from v al have pos: "terminations (heap m ! a) = 0 \<Longrightarrow> 0 < refCount (heap m ! a)"
      by (simp add: live_open_def)
    from s Open Some
    have "m' = m\<lparr>heap := (heap m)[a := (heap m ! a)\<lparr>refCount := refCount (heap m ! a) + 1\<rparr>]\<rparr>"
      "ws' = ws" "ts' = ts"
      by (simp_all add: begin_cases)
    with v w t a al pos show ?thesis
      by (auto simp: live_open_def nth_update_cases)
  next
    case None
    with s Open v w t fresh show ?thesis
      by (auto simp: begin_cases live_open_def nth_append instantiate_def less_Suc_eq
          split: option.splits)
  qed
next
  case (Init a out)
  from s Init v w t show ?thesis
    by (cases out)
      (auto simp: openExchange_resume_def close_begin_cases live_open_def nth_update_cases
        split: if_splits dest: notin_set_remove1)
next
  case (Close x)
  from s Close v w t show ?thesis
    by (cases x)
      (auto simp: close_begin_cases live_open_def nth_update_cases split: if_splits)
next
  case (Terminated a out)
  show ?thesis
  proof (cases "a \<in> set ts")
    case False
    with s Terminated v w t show ?thesis by auto
  next
    case True
    with t have pos: "0 < terminations (heap m ! a)" by simp
    show ?thesis
    proof (cases out)
      case None
      with s Terminated True
      have m': "m' = m\<lparr>opened := filter (\<lambda>item. item \<noteq> a) (opened m)\<rparr>" and ws': "ws' = ws"
        and ts': "ts' = remove1 a ts"
        by (auto simp: closeExchange_resume_def)
      have "live_open m'"
        unfolding live_open_def m'
      proof (intro allI impI)
        fix b
        assume "b < length (heap (m\<lparr>opened := filter (\<lambda>item. item \<noteq> a) (opened m)\<rparr>))"
          and "terminations (heap (m\<lparr>opened := filter (\<lambda>item. item \<noteq> a) (opened m)\<rparr>) ! b) = 0"
        then have b: "b < length (heap m)" "terminations (heap m ! b) = 0" by simp_all
        with pos have "b \<noteq> a" by auto
        with v b
        show "0 < refCount (heap (m\<lparr>opened := filter (\<lambda>item. item \<noteq> a) (opened m)\<rparr>) ! b) \<and>
              b \<in> set (opened (m\<lparr>opened := filter (\<lambda>item. item \<noteq> a) (opened m)\<rparr>))"
          by (simp add: live_open_def)
      qed
      with w t show ?thesis
        unfolding ws' ts' by (auto simp: m' dest: notin_set_remove1)
    next
      case (Some err)
      with s Terminated True v w t show ?thesis
        by (auto simp: closeExchange_resume_def dest: notin_set_remove1)
    qed
  qed
qed

lemma live_foldl:
  assumes "pool_unique m"
    and "live_open m"
    and "\<forall>a\<in>set ws. a < length (heap m)"
    and "\<forall>a\<in>set ts. a < length (heap m) \<and> 0 < terminations (heap m ! a)"
  shows "live_open (fst (foldl pool_step (m, ws, ts, fs) evs))"
  using assms
proof (induction evs arbitrary: m ws ts fs)
  case Nil
  then show ?case by simp
next
  case (Cons ev evs)
  obtain m1 ws1 ts1 fs1 where s: "pool_step (m, ws, ts, fs) ev = (m1, ws1, ts1, fs1)"
    by (cases "pool_step (m, ws, ts, fs) ev")
  from pool_step_unique[of "(m, ws, ts, fs)" ev] Cons.prems(1) s have u1: "pool_unique m1" by simp
  note f = live_step[OF Cons.prems s]
  have "live_open (fst (foldl pool_step (m1, ws1, ts1, fs1) evs))"
    by (rule Cons.IH[OF u1]) (use f in blast)+
  with s show ?case by simp
qed

text \<open>
  C1, as the claim states it, fails. \<^verbatim>\<open>closeExchange\<close> decrements the count, awaits
  \<^verbatim>\<open>terminate()\<close> and only then removes the handle, so that while \<^verbatim>\<open>terminate()\<close> is awaited the
  handle is in the open-set with the count 0; when \<^verbatim>\<open>terminate()\<close> rejects, the removal is
  skipped and the handle stays there with the count 0; and an \<^verbatim>\<open>openExchange\<close> called while
  \<^verbatim>\<open>terminate()\<close> is awaited finds the handle and increments its count, so that the handle
  ends outside the open-set with the count 1.
\<close>

theorem pool_invariant_counterexample:
  "pool_run [bitfinex] [Open ''bitfinex'' account, Init 0 None, Close (Some 0)]
     = (closing_last, [], [0], []) \<and>
   pool_run [bitfinex]
      [Open ''bitfinex'' account, Init 0 None, Close (Some 0), Terminated 0 (Some ''terminate failed'')]
     = (closing_last, [], [], [0]) \<and>
   0 \<in> set (opened closing_last) \<and> refCount (heap closing_last ! 0) = 0 \<and>
   pool_run [bitfinex]
      [Open ''bitfinex'' account, Init 0 None, Close (Some 0), Open ''bitfinex'' account,
       Terminated 0 None]
     = (reopened, [], [], []) \<and>
   0 \<notin> set (opened reopened) \<and> refCount (heap reopened ! 0) = 1"
  by (simp add: pool_run_def ctor_def openExchange_begin_def openExchange_resume_def
      closeExchange_begin_def closeExchange_resume_def
      findOpened_def matches_def exchangeName_of_def truthy_def account_def bitfinex_def
      instantiate_def addReference_def removeReference_def terminate_def
      opened_once_def closing_last_def reopened_def)

text \<open>
  C1, amended. Starting from the empty pool of the constructor, in every run of
  \<^verbatim>\<open>openExchange\<close> and \<^verbatim>\<open>closeExchange\<close> calls, however the calls are interleaved at their
  awaits and however \<^verbatim>\<open>init\<close> and \<^verbatim>\<open>terminate()\<close> settle, at any time no two entries of the
  open-set have the same (name, credentials) identity, and every handle on which
  \<^verbatim>\<open>terminate()\<close> has not been called is in the open-set with a reference count greater than
  zero; this includes the window in which a new handle has been pushed and its \<^verbatim>\<open>init\<close> has
  not settled yet. When besides no call of the run finds or closes a handle whose
  \<^verbatim>\<open>terminate()\<close> is awaited or has rejected, then at any time, for every handle whose
  \<^verbatim>\<open>terminate()\<close> is not awaited and has not rejected, the reference count is greater than
  zero exactly when the handle is in the open-set.
\<close>

theorem pool_invariant:
  "pool_unique (fst (pool_run xs evs)) \<and> live_open (fst (pool_run xs evs)) \<and>
   (undisturbed (ctor xs, [], [], []) evs \<longrightarrow>
      (case pool_run xs evs of (m, ws, ts, fs) \<Rightarrow>
         pool_ok_except m (ts @ fs) \<and> (ts = [] \<and> fs = [] \<longrightarrow> pool_ok m)))"
proof (intro conjI impI)
  have u0: "pool_unique (ctor xs)" by (simp add: ctor_def pool_unique_def)
  show u: "pool_unique (fst (pool_run xs evs))"
    unfolding pool_run_def
    by (rule pool_foldl_unique) (simp add: u0)
  show "live_open (fst (pool_run xs evs))"
    unfolding pool_run_def
    by (rule live_foldl[OF u0]) (simp_all add: ctor_def live_open_def)
  assume calm: "undisturbed (ctor xs, [], [], []) evs"
  obtain m ws ts fs where r: "foldl pool_step (ctor xs, [], [], []) evs = (m, ws, ts, fs)"
    by (cases "foldl pool_step (ctor xs, [], [], []) evs")
  have "\<forall>a<length (heap m). a \<notin> set ts \<union> set fs \<longrightarrow>
          (0 < refCount (heap m ! a)) = (a \<in> set (opened m))"
    by (rule counts_foldl[OF u0 _ _ _ _ calm r]) (simp_all add: ctor_def)
  moreover from u r have "pool_unique m" by (simp add: pool_run_def)
  ultimately have "pool_ok_except m (ts @ fs)"
    by (simp add: pool_ok_except_def pool_unique_def)
  then show "case pool_run xs evs of (m, ws, ts, fs) \<Rightarrow>
               pool_ok_except m (ts @ fs) \<and> (ts = [] \<and> fs = [] \<longrightarrow> pool_ok m)"
    by (auto simp: pool_run_def r pool_ok_def)
qed

theorem pool_invariant_witness:
  "undisturbed (ctor [bitfinex], [], [], [])
      [Open ''bitfinex'' account, Init 0 None, Close (Some 0), Open ''bitfinex'' second,
       Terminated 0 None, Init 1 (Some ''init failed'')] \<and>
   pool_run [bitfinex]
      [Open ''bitfinex'' account, Init 0 None, Close (Some 0), Open ''bitfinex'' second,
       Terminated 0 None, Init 1 (Some ''init failed'')]
     = (closing_second, [], [1], []) \<and>
   pool_unique closing_second \<and> live_open closing_second \<and> pool_ok_except closing_second [1] \<and>
   refCount (heap closing_second ! 0) = 0 \<and> 0 \<notin> set (opened closing_second) \<and>
   undisturbed (ctor [bitfinex], [], [], [])
      [Open ''bitfinex'' account, Open ''bitfinex'' account, Init 0 (Some ''init failed'')] \<and>
   pool_run [bitfinex]
      [Open ''bitfinex'' account, Open ''bitfinex'' account, Init 0 (Some ''init failed'')]
     = (opened_once\<lparr>logged := [''init failed'']\<rparr>, [], [], []) \<and>
   pool_ok (opened_once\<lparr>logged := [''init failed'']\<rparr>) \<and>
   refCount (heap (opened_once\<lparr>logged := [''init failed'']\<rparr>) ! 0) = 1 \<and>
   0 \<in> set (opened (opened_once\<lparr>logged := [''init failed'']\<rparr>))"
proof -
  have r1: "pool_run [bitfinex]
      [Open ''bitfinex'' account, Init 0 None, Close (Some 0), Open ''bitfinex'' second,
       Terminated 0 None, Init 1 (Some ''init failed'')]
     = (closing_second, [], [1], [])"
    by (simp add: pool_run_def ctor_def openExchange_begin_def openExchange_resume_def
      closeExchange_begin_def closeExchange_resume_def
      findOpened_def matches_def exchangeName_of_def truthy_def account_def second_def bitfinex_def
      instantiate_def addReference_def removeReference_def terminate_def opened_once_def
      closed_again_def closing_second_def)
  have r2: "pool_run [bitfinex]
      [Open ''bitfinex'' account, Open ''bitfinex'' account, Init 0 (Some ''init failed'')]
     = (opened_once\<lparr>logged := [''init failed'']\<rparr>, [], [], [])"
    by (simp add: pool_run_def ctor_def openExchange_begin_def openExchange_resume_def
      closeExchange_begin_def closeExchange_resume_def
      findOpened_def matches_def exchangeName_of_def truthy_def account_def bitfinex_def
      instantiate_def addReference_def removeReference_def terminate_def opened_once_def)
  have u1: "undisturbed (ctor [bitfinex], [], [], [])
      [Open ''bitfinex'' account, Init 0 None, Close (Some 0), Open ''bitfinex'' second,
       Terminated 0 None, Init 1 (Some ''init failed'')]"
    by (simp add: ctor_def openExchange_begin_def openExchange_resume_def
      closeExchange_begin_def closeExchange_resume_def
      findOpened_def matches_def exchangeName_of_def truthy_def account_def second_def bitfinex_def
      instantiate_def addReference_def removeReference_def terminate_def)
  have u2: "undisturbed (ctor [bitfinex], [], [], [])
      [Open ''bitfinex'' account, Open ''bitfinex'' account, Init 0 (Some ''init failed'')]"
    by (simp add: ctor_def openExchange_begin_def openExchange_resume_def
      closeExchange_begin_def closeExchange_resume_def
      findOpened_def matches_def exchangeName_of_def truthy_def account_def bitfinex_def
      instantiate_def addReference_def removeReference_def terminate_def)
  have v: "refCount (heap closing_second ! 0) = 0 \<and> 0 \<notin> set (opened closing_second) \<and>
           refCount (heap (opened_once\<lparr>logged := [''init failed'']\<rparr>) ! 0) = 1 \<and>
           0 \<in> set (opened (opened_once\<lparr>logged := [''init failed'']\<rparr>))"
    by (simp add: closing_second_def closed_again_def opened_once_def)
  from pool_invariant[of "[bitfinex]"
      "[Open ''bitfinex'' account, Init 0 None, Close (Some 0), Open ''bitfinex'' second,
        Terminated 0 None, Init 1 (Some ''init failed'')]"] u1
  have p1: "pool_unique closing_second \<and> live_open closing_second \<and> pool_ok_except closing_second [1]"
    unfolding r1 by simp
  from pool_invariant[of "[bitfinex]"
      "[Open ''bitfinex'' account, Open ''bitfinex'' account, Init 0 (Some ''init failed'')]"] u2
  have p2: "pool_ok (opened_once\<lparr>logged := [''init failed'']\<rparr>)"
    unfolding r2 by simp
  from r1 r2 u1 u2 v p1 p2 show ?thesis by blast
qed
section \<open>Properties of the pool: the reference-count lifecycle\<close>

lemma find_append_fresh:
  "find P xs = None \<Longrightarrow> P a \<Longrightarrow> find P (xs @ [a]) = Some a"
  by (induction xs) (auto split: if_splits)

lemma find_cong_set:
  "(\<And>x. x \<in> set xs \<Longrightarrow> P x = Q x) \<Longrightarrow> find P xs = find Q xs"
  by (induction xs) auto

lemma findOpened_created:
  assumes "pool_unique m" and "findOpened m n c = None"
    and "handle_name h = n" and "handle_credentials h = c"
  shows "findOpened (m\<lparr>heap := heap m @ [h], opened := opened m @ [length (heap m)]\<rparr>) n c
           = Some (length (heap m))"
proof -
  have "find (\<lambda>el. matches ((heap m @ [h]) ! el) n c) (opened m) = find (\<lambda>el. matches (heap m ! el) n c) (opened m)"
    using assms(1) by (intro find_cong_set) (auto simp: pool_unique_def nth_append)
  then have "find (\<lambda>el. matches ((heap m @ [h]) ! el) n c) (opened m) = None"
    using assms(2) by (simp add: findOpened_def)
  then show ?thesis
    using assms(3,4) by (simp add: findOpened_def find_append_fresh matches_def)
qed

lemma fresh_not_opened: "pool_unique m \<Longrightarrow> length (heap m) \<notin> set (opened m)"
  by (auto simp: pool_unique_def)

lemma filter_fresh: "a \<notin> set xs \<Longrightarrow> filter (\<lambda>item. item \<noteq> a) xs = xs"
  by (induction xs) auto

text \<open>
  C2, as the claim states it, fails: the second \<^verbatim>\<open>closeExchange\<close> calls \<^verbatim>\<open>terminate()\<close>, but
  when \<^verbatim>\<open>terminate()\<close> rejects, the handle is not removed from the open-set: it stays there
  with the count 0, and the promise of \<^verbatim>\<open>closeExchange\<close> rejects.
\<close>

theorem reference_count_lifecycle_counterexample:
  "openExchange (ctor [bitfinex]) ''bitfinex'' account ''BTCUSD'' (\<lambda>s. None) None
     = (Inr (Some 0), opened_once) \<and>
   openExchange opened_once ''bitfinex'' account ''BTCUSD'' (\<lambda>s. None) None
     = (Inr (Some 0), opened_twice) \<and>
   closeExchange opened_twice (Some 0) (Some ''terminate failed'') = (Resolved, opened_once) \<and>
   closeExchange opened_once (Some 0) (Some ''terminate failed'')
     = (Rejected ''terminate failed'', closing_last) \<and>
   0 \<in> set (opened closing_last) \<and> refCount (heap closing_last ! 0) = 0 \<and>
   terminations (heap closing_last ! 0) = 1"
  by (simp add: ctor_def openExchange_def openExchange_begin_def openExchange_rest_def
      openExchange_resume_def closeExchange_def closeExchange_begin_def closeExchange_resume_def
      findOpened_def matches_def exchangeName_of_def truthy_def account_def bitfinex_def
      instantiate_def addReference_def removeReference_def terminate_def
      opened_once_def opened_twice_def closing_last_def)

text \<open>
  C2, amended. In a pool in which (name, credentials) is not open, whose catalog resolves
  the pair and whose handle's \<^verbatim>\<open>init\<close> succeeds, two \<^verbatim>\<open>openExchange\<close> calls with that pair
  return the same handle, the only entry of the open-set with that identity, with its
  reference count at 2; one \<^verbatim>\<open>closeExchange\<close> on the handle leaves it in the open-set
  without a call of \<^verbatim>\<open>terminate()\<close>; a second one calls \<^verbatim>\<open>terminate()\<close> and, when
  \<^verbatim>\<open>terminate()\<close> resolves, removes the handle from the open-set; when \<^verbatim>\<open>terminate()\<close> rejects,
  \<^verbatim>\<open>closeExchange\<close> rejects with the same error and the handle stays in the open-set with
  the count 0. Each call runs to completion before the next one.
\<close>

theorem reference_count_lifecycle:
  assumes ok: "pool_unique m" and nf: "findOpened m n c = None"
    and cat: "find (\<lambda>el. entry_name el = exchangeName_of n c) (exchanges m) = Some e"
    and init: "init s1 = None"
    and open1: "openExchange m n c s1 init t1 = (r1, m1)"
    and open2: "openExchange m1 n c s2 init2 t2 = (r2, m2)"
    and close1: "closeExchange m2 (Some (length (heap m))) t3 = (p3, m3)"
    and close2: "closeExchange m3 (Some (length (heap m))) t4 = (p4, m4)"
  shows "r1 = Inr (Some (length (heap m))) \<and> r2 = r1 \<and> refCount (heap m2 ! length (heap m)) = 2 \<and>
         filter (\<lambda>b. identity m2 b = (n, c)) (opened m2) = [length (heap m)] \<and>
         p3 = Resolved \<and> length (heap m) \<in> set (opened m3) \<and>
         refCount (heap m3 ! length (heap m)) = 1 \<and> terminations (heap m3 ! length (heap m)) = 0 \<and>
         refCount (heap m4 ! length (heap m)) = 0 \<and> terminations (heap m4 ! length (heap m)) = 1 \<and>
         (t4 = None \<longrightarrow> p4 = Resolved \<and> length (heap m) \<notin> set (opened m4)) \<and>
         (\<forall>err. t4 = Some err \<longrightarrow> p4 = Rejected err \<and> length (heap m) \<in> set (opened m4))"
proof -
  let ?a = "length (heap m)"
  let ?h = "instantiate e n c"
  let ?m1 = "m\<lparr>heap := heap m @ [?h], opened := opened m @ [?a]\<rparr>"
  let ?m2 = "m\<lparr>heap := heap m @ [?h\<lparr>refCount := 2\<rparr>], opened := opened m @ [?a]\<rparr>"
  let ?m3 = "m\<lparr>heap := heap m @ [?h\<lparr>refCount := 1\<rparr>], opened := opened m @ [?a]\<rparr>"
  let ?m4 = "m\<lparr>heap := heap m @ [?h\<lparr>refCount := 0, terminations := 1\<rparr>], opened := opened m @ [?a]\<rparr>"
  have hn: "\<And>k. handle_name (?h\<lparr>refCount := k\<rparr>) = n" "\<And>k. handle_credentials (?h\<lparr>refCount := k\<rparr>) = c"
     "handle_name ?h = n" "handle_credentials ?h = c"
    by (simp_all add: instantiate_def)
  have o1: "openExchange m n c s1 init t1 = (Inr (Some ?a), ?m1)"
    using nf cat init
    by (simp add: openExchange_def openExchange_begin_def openExchange_rest_def openExchange_resume_def)
  have f1: "findOpened ?m1 n c = Some ?a"
    using findOpened_created[OF ok nf hn(3,4)] .
  have o2: "openExchange ?m1 n c s2 init2 t2 = (Inr (Some ?a), ?m2)"
    using f1 by (simp add: openExchange_def openExchange_begin_def addReference_def instantiate_def)
  have f2: "findOpened ?m2 n c = Some ?a"
    using findOpened_created[OF ok nf hn(1,2)] .
  have c3: "closeExchange ?m2 (Some ?a) t3 = (Resolved, ?m3)"
    using f2 by (simp add: closeExchange_def closeExchange_begin_def removeReference_def instantiate_def)
  have f3: "findOpened ?m3 n c = Some ?a"
    using findOpened_created[OF ok nf hn(1,2)] .
  have c4: "closeExchange_begin ?m3 (Some ?a) = (Terminating ?a, ?m4)"
    using f3
    by (simp add: closeExchange_begin_def removeReference_def instantiate_def terminate_def)
  have c5: "closeExchange ?m3 (Some ?a) t4 = closeExchange_resume ?m4 ?a t4"
    by (simp add: closeExchange_def c4)
  have single: "filter (\<lambda>b. identity ?m2 b = (n, c)) (opened ?m2) = [?a]"
  proof -
    have "\<And>b. b \<in> set (opened m) \<Longrightarrow> identity ?m2 b = identity m b"
      using ok by (auto simp: identity_def pool_unique_def nth_append)
    then have "filter (\<lambda>b. identity ?m2 b = (n, c)) (opened m) = []"
      using findOpened_NoneD[OF nf] by (auto simp: filter_empty_conv)
    then show ?thesis by (simp add: identity_def instantiate_def)
  qed
  have r1: "r1 = Inr (Some ?a)" and m1: "m1 = ?m1" using open1 o1 by simp_all
  have r2: "r2 = Inr (Some ?a)" and m2: "m2 = ?m2" using open2 o2 unfolding m1 by simp_all
  have p3: "p3 = Resolved" and m3: "m3 = ?m3" using close1 c3 unfolding m2 by simp_all
  have r4: "closeExchange_resume ?m4 ?a t4 = (p4, m4)" using close2 c5 unfolding m3 by simp
  have last: "refCount (heap m4 ! ?a) = 0 \<and> terminations (heap m4 ! ?a) = 1 \<and>
         (t4 = None \<longrightarrow> p4 = Resolved \<and> ?a \<notin> set (opened m4)) \<and>
         (\<forall>err. t4 = Some err \<longrightarrow> p4 = Rejected err \<and> ?a \<in> set (opened m4))"
    using r4 by (cases t4) (auto simp: closeExchange_resume_def)
  show ?thesis
    unfolding r1 r2 m2 m3 p3
    using single last by (simp add: instantiate_def)
qed

theorem reference_count_lifecycle_witness:
  "pool_unique (ctor [bitfinex]) \<and> findOpened (ctor [bitfinex]) ''bitfinex'' account = None \<and>
   openExchange (ctor [bitfinex]) ''bitfinex'' account ''BTCUSD'' (\<lambda>s. None) None
     = (Inr (Some 0), opened_once) \<and>
   openExchange opened_once ''bitfinex'' account ''ETHUSD'' (\<lambda>s. Some ''unused'') None
     = (Inr (Some 0), opened_twice) \<and>
   closeExchange opened_twice (Some 0) None = (Resolved, opened_once) \<and>
   closeExchange opened_once (Some 0) None = (Resolved, closed_again) \<and>
   refCount (heap opened_twice ! 0) = 2 \<and>
   0 \<in> set (opened opened_once) \<and> terminations (heap opened_once ! 0) = 0 \<and>
   0 \<notin> set (opened closed_again) \<and> terminations (heap closed_again ! 0) = 1"
proof -
  have h1: "pool_unique (ctor [bitfinex])" by (simp add: ctor_def pool_unique_def)
  have h2: "findOpened (ctor [bitfinex]) ''bitfinex'' account = None" by (simp add: ctor_def findOpened_def)
  have h3: "find (\<lambda>el. entry_name el = exchangeName_of ''bitfinex'' account) (exchanges (ctor [bitfinex])) = Some bitfinex"
    by (simp add: ctor_def exchangeName_of_def truthy_def account_def bitfinex_def)
  have h4: "(\<lambda>s::string. None::string option) ''BTCUSD'' = None" by simp
  have h5: "openExchange (ctor [bitfinex]) ''bitfinex'' account ''BTCUSD'' (\<lambda>s. None) None
              = (Inr (Some 0), opened_once)"
    by (simp add: ctor_def openExchange_def openExchange_begin_def openExchange_rest_def
        openExchange_resume_def
        findOpened_def exchangeName_of_def truthy_def account_def bitfinex_def instantiate_def opened_once_def)
  have h6: "openExchange opened_once ''bitfinex'' account ''ETHUSD'' (\<lambda>s. Some ''unused'') None
              = (Inr (Some 0), opened_twice)"
    by (simp add: openExchange_def openExchange_begin_def findOpened_def matches_def addReference_def
        opened_once_def opened_twice_def)
  have len: "length (heap (ctor [bitfinex])) = 0" by (simp add: ctor_def)
  have h7: "closeExchange opened_twice (Some (length (heap (ctor [bitfinex])))) None = (Resolved, opened_once)"
    unfolding len
    by (simp add: closeExchange_def closeExchange_begin_def findOpened_def matches_def
        removeReference_def opened_once_def opened_twice_def)
  have h8: "closeExchange opened_once (Some (length (heap (ctor [bitfinex])))) None = (Resolved, closed_again)"
    unfolding len
    by (simp add: closeExchange_def closeExchange_begin_def closeExchange_resume_def findOpened_def
        matches_def removeReference_def terminate_def opened_once_def closed_again_def)
  from reference_count_lifecycle[OF h1 h2 h3 h4 h5 h6 h7 h8] h1 h2 h5 h6 h7 h8 show ?thesis
    by (simp add: ctor_def)
qed

section \<open>Properties of the pool: failure of the initialization\<close>

lemma findOpened_self:
  assumes "a \<in> set (opened m)"
  shows "findOpened m (handle_name (heap m ! a)) (handle_credentials (heap m ! a)) \<noteq> None"
  using assms by (auto simp: findOpened_def find_None_iff matches_def)

lemma findOpened_logged [simp]: "findOpened (m\<lparr>logged := l\<rparr>) n c = findOpened m n c"
  by (simp add: findOpened_def)

lemma resume_in_pool:
  assumes "a \<in> set (opened m)" and "a < length (heap m)"
  shows "openExchange_resume m a (Some err) =
           (if refCount (heap m ! a) \<le> 1
            then (Closing a,
                  m\<lparr>heap := (heap m)[a := (heap m ! a)\<lparr>refCount := refCount (heap m ! a) - 1,
                                                  terminations := Suc (terminations (heap m ! a))\<rparr>],
                    logged := logged m @ [err]\<rparr>)
            else (Returned None,
                  m\<lparr>heap := (heap m)[a := (heap m ! a)\<lparr>refCount := refCount (heap m ! a) - 1\<rparr>],
                    logged := logged m @ [err]\<rparr>))"
proof -
  obtain ex where "findOpened m (handle_name (heap m ! a)) (handle_credentials (heap m ! a)) = Some ex"
    using findOpened_self[OF assms(1)] by auto
  then show ?thesis
    by (simp add: openExchange_resume_def close_begin_cases)
qed

text \<open>
  C3, as the claim states it, fails: when another caller has taken a reference to the new
  handle while its \<^verbatim>\<open>init\<close> was awaited, the failure of \<^verbatim>\<open>init\<close> leaves the handle in the
  open-set, not terminated, with the count 1.
\<close>

theorem init_failure_counterexample:
  "openExchange_begin (ctor [bitfinex]) ''bitfinex'' account = (Created 0, opened_once) \<and>
   openExchange_begin opened_once ''bitfinex'' account = (Found 0, opened_twice) \<and>
   openExchange_resume opened_twice 0 (Some ''init failed'')
     = (Returned None, opened_once\<lparr>logged := [''init failed'']\<rparr>) \<and>
   0 \<in> set (opened (opened_once\<lparr>logged := [''init failed'']\<rparr>)) \<and>
   terminations (heap (opened_once\<lparr>logged := [''init failed'']\<rparr>) ! 0) = 0"
  by (simp add: ctor_def openExchange_begin_def openExchange_resume_def closeExchange_begin_def
      findOpened_def matches_def exchangeName_of_def truthy_def account_def bitfinex_def
      instantiate_def addReference_def removeReference_def opened_once_def opened_twice_def)

text \<open>
  C3, amended. When the \<^verbatim>\<open>init\<close> of a new handle fails, the failure is logged and the
  handle is closed with \<^verbatim>\<open>closeExchange\<close>, through the reference count. The count of a
  handle still in the open-set is decremented. When the count was above 1, the handle
  stays in the open-set, not terminated, and \<^verbatim>\<open>openExchange\<close> returns none. When the count
  was at most 1, \<^verbatim>\<open>terminate()\<close> is called while the handle is still in the open-set; when
  \<^verbatim>\<open>terminate()\<close> resolves, the handle is removed from the open-set and \<^verbatim>\<open>openExchange\<close>
  returns none; when \<^verbatim>\<open>terminate()\<close> rejects, the handle stays in the open-set and the
  promise of \<^verbatim>\<open>openExchange\<close> rejects with the error of \<^verbatim>\<open>terminate()\<close>. In a call that nothing
  interrupts the count is the initial 1: when \<^verbatim>\<open>terminate()\<close> resolves the call returns
  none and leaves the open-set as it found it and the new handle terminated, with the
  count 0; when \<^verbatim>\<open>terminate()\<close> rejects the call rejects and leaves the new handle in the
  open-set, with the count 0.
\<close>

theorem init_failure_closes:
  "(a \<in> set (opened m) \<longrightarrow> a < length (heap m) \<longrightarrow>
      logged (snd (openExchange_resume m a (Some err))) = logged m @ [err] \<and>
      refCount (heap (snd (openExchange_resume m a (Some err))) ! a) = refCount (heap m ! a) - 1 \<and>
      a \<in> set (opened (snd (openExchange_resume m a (Some err)))) \<and>
      (1 < refCount (heap m ! a) \<longrightarrow>
         fst (openExchange_resume m a (Some err)) = Returned None \<and>
         terminations (heap (snd (openExchange_resume m a (Some err))) ! a) = terminations (heap m ! a)) \<and>
      (refCount (heap m ! a) \<le> 1 \<longrightarrow>
         fst (openExchange_resume m a (Some err)) = Closing a \<and>
         terminations (heap (snd (openExchange_resume m a (Some err))) ! a) =
           Suc (terminations (heap m ! a)) \<and>
         fst (openExchange_finish (snd (openExchange_resume m a (Some err))) a None) = Inr None \<and>
         a \<notin> set (opened (snd (openExchange_finish (snd (openExchange_resume m a (Some err))) a None))) \<and>
         openExchange_finish (snd (openExchange_resume m a (Some err))) a (Some err')
           = (Inl err', snd (openExchange_resume m a (Some err))))) \<and>
   (pool_unique m \<longrightarrow> findOpened m n c = None \<longrightarrow>
    find (\<lambda>el. entry_name el = exchangeName_of n c) (exchanges m) = Some e \<longrightarrow>
    init symbol = Some err \<longrightarrow>
      openExchange m n c symbol init None =
        (Inr None, m\<lparr>heap := heap m @ [(instantiate e n c)\<lparr>refCount := 0, terminations := 1\<rparr>],
                      logged := logged m @ [err]\<rparr>) \<and>
      openExchange m n c symbol init (Some err') =
        (Inl err', m\<lparr>heap := heap m @ [(instantiate e n c)\<lparr>refCount := 0, terminations := 1\<rparr>],
                      opened := opened m @ [length (heap m)],
                      logged := logged m @ [err]\<rparr>))"
proof (intro conjI impI)
  assume "a \<in> set (opened m)" and "a < length (heap m)"
  note res = resume_in_pool[OF this, of err]
  show "logged (snd (openExchange_resume m a (Some err))) = logged m @ [err]"
    by (simp add: res)
  show "refCount (heap (snd (openExchange_resume m a (Some err))) ! a) = refCount (heap m ! a) - 1"
    using \<open>a < length (heap m)\<close> by (simp add: res)
  show "a \<in> set (opened (snd (openExchange_resume m a (Some err))))"
    using \<open>a \<in> set (opened m)\<close> by (simp add: res)
  {
    assume "1 < refCount (heap m ! a)"
    then show "fst (openExchange_resume m a (Some err)) = Returned None"
      and "terminations (heap (snd (openExchange_resume m a (Some err))) ! a) = terminations (heap m ! a)"
      using \<open>a < length (heap m)\<close> by (simp_all add: res)
  }
  {
    assume "refCount (heap m ! a) \<le> 1"
    then show "fst (openExchange_resume m a (Some err)) = Closing a"
      and "terminations (heap (snd (openExchange_resume m a (Some err))) ! a) =
             Suc (terminations (heap m ! a))"
      and "fst (openExchange_finish (snd (openExchange_resume m a (Some err))) a None) = Inr None"
      and "a \<notin> set (opened (snd (openExchange_finish (snd (openExchange_resume m a (Some err))) a None)))"
      and "openExchange_finish (snd (openExchange_resume m a (Some err))) a (Some err')
             = (Inl err', snd (openExchange_resume m a (Some err)))"
      using \<open>a < length (heap m)\<close>
      by (simp_all add: res openExchange_finish_def closeExchange_resume_def)
  }
next
  assume ok: "pool_unique m" and nf: "findOpened m n c = None"
    and cat: "find (\<lambda>el. entry_name el = exchangeName_of n c) (exchanges m) = Some e"
    and init: "init symbol = Some err"
  let ?h = "instantiate e n c"
  let ?m1 = "m\<lparr>heap := heap m @ [?h], opened := opened m @ [length (heap m)]\<rparr>"
  have f: "findOpened ?m1 n c = Some (length (heap m))"
    by (rule findOpened_created[OF ok nf]) (simp_all add: instantiate_def)
  have b: "openExchange_begin m n c = (Created (length (heap m)), ?m1)"
    using nf cat by (simp add: openExchange_begin_def)
  have r: "openExchange_resume ?m1 (length (heap m)) (Some err) =
             (Closing (length (heap m)),
              m\<lparr>heap := heap m @ [?h\<lparr>refCount := 0, terminations := 1\<rparr>],
                opened := opened m @ [length (heap m)], logged := logged m @ [err]\<rparr>)"
    using f
    by (simp add: openExchange_resume_def closeExchange_begin_def removeReference_def terminate_def
        instantiate_def)
  show "openExchange m n c symbol init None =
        (Inr None, m\<lparr>heap := heap m @ [(instantiate e n c)\<lparr>refCount := 0, terminations := 1\<rparr>],
                      logged := logged m @ [err]\<rparr>)"
    using fresh_not_opened[OF ok]
    by (simp add: openExchange_def b init openExchange_rest_def r openExchange_finish_def
        closeExchange_resume_def filter_fresh)
  show "openExchange m n c symbol init (Some err') =
        (Inl err', m\<lparr>heap := heap m @ [(instantiate e n c)\<lparr>refCount := 0, terminations := 1\<rparr>],
                      opened := opened m @ [length (heap m)],
                      logged := logged m @ [err]\<rparr>)"
    by (simp add: openExchange_def b init openExchange_rest_def r openExchange_finish_def
        closeExchange_resume_def)
qed

theorem init_failure_closes_witness:
  "0 \<in> set (opened opened_once) \<and> 0 < length (heap opened_once) \<and>
   refCount (heap opened_once ! 0) \<le> 1 \<and>
   openExchange_resume opened_once 0 (Some ''init failed'')
     = (Closing 0, closing_last\<lparr>logged := [''init failed'']\<rparr>) \<and>
   openExchange_finish (closing_last\<lparr>logged := [''init failed'']\<rparr>) 0 None
     = (Inr None, closed_again\<lparr>logged := [''init failed'']\<rparr>) \<and>
   openExchange_finish (closing_last\<lparr>logged := [''init failed'']\<rparr>) 0 (Some ''terminate failed'')
     = (Inl ''terminate failed'', closing_last\<lparr>logged := [''init failed'']\<rparr>) \<and>
   0 \<in> set (opened opened_twice) \<and> 0 < length (heap opened_twice) \<and>
   1 < refCount (heap opened_twice ! 0) \<and>
   fst (openExchange_resume opened_twice 0 (Some ''init failed'')) = Returned None \<and>
   0 \<in> set (opened (snd (openExchange_resume opened_twice 0 (Some ''init failed'')))) \<and>
   terminations (heap (snd (openExchange_resume opened_twice 0 (Some ''init failed''))) ! 0) = 0 \<and>
   pool_unique (ctor [bitfinex]) \<and> findOpened (ctor [bitfinex]) ''bitfinex'' account = None \<and>
   openExchange (ctor [bitfinex]) ''bitfinex'' account ''BTCUSD'' (\<lambda>s. Some ''init failed'') None
     = (Inr None, closed_again\<lparr>logged := [''init failed'']\<rparr>) \<and>
   openExchange (ctor [bitfinex]) ''bitfinex'' account ''BTCUSD'' (\<lambda>s. Some ''init failed'')
       (Some ''terminate failed'')
     = (Inl ''terminate failed'', closing_last\<lparr>logged := [''init failed'']\<rparr>)"
proof -
  have h2: "pool_unique (ctor [bitfinex])" by (simp add: ctor_def pool_unique_def)
  have h3: "findOpened (ctor [bitfinex]) ''bitfinex'' account = None" by (simp add: ctor_def findOpened_def)
  have h4: "find (\<lambda>el. entry_name el = exchangeName_of ''bitfinex'' account) (exchanges (ctor [bitfinex])) = Some bitfinex"
    by (simp add: ctor_def exchangeName_of_def truthy_def account_def bitfinex_def)
  have h5: "0 < length (heap opened_once)" "0 \<in> set (opened opened_once)"
    "refCount (heap opened_once ! 0) = 1" "terminations (heap opened_once ! 0) = 0"
    "logged opened_once = []"
    "0 < length (heap opened_twice)" "0 \<in> set (opened opened_twice)"
    "refCount (heap opened_twice ! 0) = 2" "terminations (heap opened_twice ! 0) = 0"
    by (simp_all add: opened_once_def opened_twice_def)
  have h6: "closed_again\<lparr>logged := [''init failed'']\<rparr> =
      (ctor [bitfinex])\<lparr>heap := heap (ctor [bitfinex]) @ [(instantiate bitfinex ''bitfinex'' account)\<lparr>refCount := 0, terminations := 1\<rparr>],
                        logged := logged (ctor [bitfinex]) @ [''init failed'']\<rparr>"
    "closing_last\<lparr>logged := [''init failed'']\<rparr> =
      (ctor [bitfinex])\<lparr>heap := heap (ctor [bitfinex]) @ [(instantiate bitfinex ''bitfinex'' account)\<lparr>refCount := 0, terminations := 1\<rparr>],
                        opened := opened (ctor [bitfinex]) @ [length (heap (ctor [bitfinex]))],
                        logged := logged (ctor [bitfinex]) @ [''init failed'']\<rparr>"
    by (simp_all add: closed_again_def closing_last_def opened_once_def ctor_def instantiate_def bitfinex_def)
  have r1: "openExchange_resume opened_once 0 (Some ''init failed'')
     = (Closing 0, closing_last\<lparr>logged := [''init failed'']\<rparr>)"
    by (simp add: openExchange_resume_def closeExchange_begin_def findOpened_def matches_def
        removeReference_def terminate_def opened_once_def closing_last_def)
  have f1: "openExchange_finish (closing_last\<lparr>logged := [''init failed'']\<rparr>) 0 None
     = (Inr None, closed_again\<lparr>logged := [''init failed'']\<rparr>)"
    by (simp add: openExchange_finish_def closeExchange_resume_def closing_last_def closed_again_def
        opened_once_def)
  have f2: "openExchange_finish (closing_last\<lparr>logged := [''init failed'']\<rparr>) 0 (Some ''terminate failed'')
     = (Inl ''terminate failed'', closing_last\<lparr>logged := [''init failed'']\<rparr>)"
    using h5(1-3) r1
      init_failure_closes[of 0 opened_once "''init failed''" "''terminate failed''"
        "''bitfinex''" account bitfinex "\<lambda>s. Some ''init failed''" "''BTCUSD''"]
    by simp
  have w2: "fst (openExchange_resume opened_twice 0 (Some ''init failed'')) = Returned None \<and>
   0 \<in> set (opened (snd (openExchange_resume opened_twice 0 (Some ''init failed'')))) \<and>
   terminations (heap (snd (openExchange_resume opened_twice 0 (Some ''init failed''))) ! 0) = 0"
    using h5(6-9)
      init_failure_closes[of 0 opened_twice "''init failed''" "''terminate failed''"
        "''bitfinex''" account bitfinex "\<lambda>s. Some ''init failed''" "''BTCUSD''"]
    by simp
  have w3: "openExchange (ctor [bitfinex]) ''bitfinex'' account ''BTCUSD'' (\<lambda>s. Some ''init failed'') None
     = (Inr None, closed_again\<lparr>logged := [''init failed'']\<rparr>) \<and>
   openExchange (ctor [bitfinex]) ''bitfinex'' account ''BTCUSD'' (\<lambda>s. Some ''init failed'')
       (Some ''terminate failed'')
     = (Inl ''terminate failed'', closing_last\<lparr>logged := [''init failed'']\<rparr>)"
    unfolding h6
    using h2 h3 h4
      init_failure_closes[of 0 "ctor [bitfinex]" "''init failed''" "''terminate failed''"
        "''bitfinex''" account bitfinex "\<lambda>s. Some ''init failed''" "''BTCUSD''"]
    by simp
  from h2 h3 h5 r1 f1 f2 w2 w3 show ?thesis by simp
qed

section \<open>Properties of the sequence executor\<close>

lemma iteratee_step:
  "iteratee ex symb ses a r =
     (None, r\<lparr>exchange_state := snd (ex (exchange_state r) symb (action_name a) (params a) ses),
              events := events r @
                [Called a, Settled a (fst (ex (exchange_state r) symb (action_name a) (params a) ses))],
              reports := reports r @
                (case fst (ex (exchange_state r) symb (action_name a) (params a) ses) of
                   None \<Rightarrow> [] | Some err \<Rightarrow> [failure_report a err])\<rparr>)"
  by (simp add: iteratee_def executeCommand_def split: prod.split option.split)

lemma eachSeries_iteratee:
  "fst (eachSeries (iteratee ex symb ses) as r) = None \<and>
   events (snd (eachSeries (iteratee ex symb ses) as r)) =
     events r @ trace_of as (settlements ex symb ses (exchange_state r) as) \<and>
   reports (snd (eachSeries (iteratee ex symb ses) as r)) =
     reports r @ failures_of as (settlements ex symb ses (exchange_state r) as)"
proof (induction as arbitrary: r)
  case Nil
  show ?case by (simp add: trace_of_def failures_of_def)
next
  case (Cons a as)
  obtain out x' where e: "ex (exchange_state r) symb (action_name a) (params a) ses = (out, x')"
    by (cases "ex (exchange_state r) symb (action_name a) (params a) ses")
  let ?r = "r\<lparr>exchange_state := x', events := events r @ [Called a, Settled a out],
              reports := reports r @ (case out of None \<Rightarrow> [] | Some err \<Rightarrow> [failure_report a err])\<rparr>"
  have step: "eachSeries (iteratee ex symb ses) (a # as) r = eachSeries (iteratee ex symb ses) as ?r"
    by (simp add: iteratee_step e)
  show ?case
    unfolding step using Cons.IH[of ?r] e
    by (simp add: trace_of_def failures_of_def)
qed

text \<open>
  C4. For a non-empty symbol and a non-empty action text, \<^verbatim>\<open>executeCommandSequence\<close> executes
  the parsed actions in order, each call of \<^verbatim>\<open>executeCommand\<close> made after the promise of the
  one before has settled; a rejection is reported and the next action is still executed;
  the returned promise resolves. In particular, when the text parses to three actions of
  which only the second fails, all three are executed and exactly one failure is
  reported.
\<close>

theorem sequence_tolerates_failures:
  assumes "symbol \<noteq> []" and "commands \<noteq> []"
  shows "fst (executeCommandSequence ex symbol commands session r) = Resolved \<and>
         events (snd (executeCommandSequence ex symbol commands session r)) =
           events r @ trace_of (parseActions commands)
                        (settlements ex symbol session (exchange_state r) (parseActions commands)) \<and>
         reports (snd (executeCommandSequence ex symbol commands session r)) =
           reports r @ failures_of (parseActions commands)
                         (settlements ex symbol session (exchange_state r) (parseActions commands)) \<and>
         (\<forall>a1 a2 a3 err.
            parseActions commands = [a1, a2, a3] \<longrightarrow>
            settlements ex symbol session (exchange_state r) [a1, a2, a3] = [None, Some err, None] \<longrightarrow>
              events (snd (executeCommandSequence ex symbol commands session r)) =
                events r @ [Called a1, Settled a1 None, Called a2, Settled a2 (Some err),
                            Called a3, Settled a3 None] \<and>
              reports (snd (executeCommandSequence ex symbol commands session r)) =
                reports r @ [failure_report a2 err])"
proof -
  let ?e = "eachSeries (iteratee ex symbol session) (parseActions commands) r"
  have run: "executeCommandSequence ex symbol commands session r = (Resolved, snd ?e)"
    using assms eachSeries_iteratee[of ex symbol session "parseActions commands" r]
    by (cases ?e) (simp add: executeCommandSequence_def)
  have gen: "events (snd ?e) = events r @ trace_of (parseActions commands)
                        (settlements ex symbol session (exchange_state r) (parseActions commands))"
    "reports (snd ?e) = reports r @ failures_of (parseActions commands)
                         (settlements ex symbol session (exchange_state r) (parseActions commands))"
    using eachSeries_iteratee[of ex symbol session "parseActions commands" r] by simp_all
  show ?thesis
    unfolding run fst_conv snd_conv gen
    by (auto simp: trace_of_def failures_of_def)
qed

theorem sequence_tolerates_failures_witness:
  "''BTCUSD'' \<noteq> [] \<and> ''buy(1); sell(2); wait(3)'' \<noteq> [] \<and>
   parseActions ''buy(1); sell(2); wait(3)'' = [buy1, sell2, wait3] \<and>
   settlements flaky ''BTCUSD'' ''s1'' 0 [buy1, sell2, wait3] = [None, Some ''rejected'', None] \<and>
   fst (executeCommandSequence flaky ''BTCUSD'' ''buy(1); sell(2); wait(3)'' ''s1''
          \<lparr>exchange_state = 0, events = [], reports = []\<rparr>) = Resolved \<and>
   events (snd (executeCommandSequence flaky ''BTCUSD'' ''buy(1); sell(2); wait(3)'' ''s1''
          \<lparr>exchange_state = 0, events = [], reports = []\<rparr>)) =
     [Called buy1, Settled buy1 None, Called sell2, Settled sell2 (Some ''rejected''),
      Called wait3, Settled wait3 None] \<and>
   reports (snd (executeCommandSequence flaky ''BTCUSD'' ''buy(1); sell(2); wait(3)'' ''s1''
          \<lparr>exchange_state = 0, events = [], reports = []\<rparr>)) = [''sell FAILED: rejected'']"
proof -
  have h1: "''BTCUSD'' \<noteq> []" and h2: "''buy(1); sell(2); wait(3)'' \<noteq> []" by simp_all
  have pa: "parseActions ''buy(1); sell(2); wait(3)'' = [buy1, sell2, wait3]"
    by code_simp
  have st: "settlements flaky ''BTCUSD'' ''s1'' 0 [buy1, sell2, wait3] = [None, Some ''rejected'', None]"
    by (simp add: flaky_def buy1_def sell2_def wait3_def)
  have nm: "failure_report sell2 ''rejected'' = ''sell FAILED: rejected''"
    by (simp add: failure_report_def sell2_def)
  from sequence_tolerates_failures[OF h1 h2, of flaky "''s1''" "\<lparr>exchange_state = 0, events = [], reports = []\<rparr>"]
    pa st nm
  show ?thesis by (simp add: trace_of_def failures_of_def)
qed

section \<open>Properties of the message dispatcher\<close>

lemma all_callbacks: "all (foldl (block_callback creds) d blocks) = all d"
proof (induction blocks arbitrary: d)
  case Nil
  show ?case by simp
next
  case (Cons b bs)
  have "all (block_callback creds d b) = all d"
    by (simp add: block_callback_def split: prod.split option.split)
  with Cons.IH[of "block_callback creds d b"] show ?case by simp
qed

lemma executeMessage_returns_seed: "fst (executeMessage m msg creds) = [Seed]"
  by (simp add: executeMessage_def Let_def all_callbacks split: option.split)

text \<open>
  C5 does not hold of the code. For a message with one block without credentials and one
  block that is dispatched, the missing credentials are reported and the other block is
  taken up, but the array \<^verbatim>\<open>executeMessage\<close> returns holds only the initial resolved promise:
  the callback of the dispatched block is suspended at \<^verbatim>\<open>await this.openExchange(...)\<close>, and
  the completion of its sequence is pushed only when the callback resumes.
\<close>

theorem dispatcher_returns_before_push:
  "executeMessage (ctor [bitfinex]) ''kraken(XBTUSD){sell(1)} bitfinex(BTCUSD){buy(1)}'' [account]
     = ([Seed], returned) \<and>
   all (block_resume returned pending None None) = [Seed, Sequence 0 ''BTCUSD'' ''buy(1)'']"
  by code_simp

section \<open>Properties of the matcher\<close>

declare search.simps [simp del] scan.simps [simp del] replace_from.simps [simp del] rx.simps [simp del]

lemma star_suffix: "s' \<in> set (star g c s) \<Longrightarrow> suffix s' s"
  by (induction s) (auto simp: suffix_Cons split: if_splits)

lemma star_greedy_hd: "\<exists>t. star True c s = dropWhile c s # t"
  by (induction s) auto

lemma rx_Seq_results:
  "st'' \<in> set (rx (Seq p q) st) \<Longrightarrow> \<exists>st'. st' \<in> set (rx p st) \<and> st'' \<in> set (rx q st')"
  by (auto simp: rx.simps)

lemma rx_Chr_results:
  "(b', s', k') \<in> set (rx (Chr c) (b, s, k)) \<Longrightarrow> k' = k \<and> (\<exists>x. s = x # s' \<and> c x)"
  by (cases s) (auto simp: rx.simps split: if_splits)

lemma rx_Star_results:
  "(b', s', k') \<in> set (rx (Star g c) (b, s, k)) \<Longrightarrow> k' = k \<and> suffix s' s"
  by (auto simp: rx.simps dest: star_suffix)

lemma rx_Plus_results:
  "(b', s', k') \<in> set (rx (Plus g c) (b, s, k)) \<Longrightarrow> k' = k \<and> suffix s' s \<and> length s' < length s"
proof -
  assume "(b', s', k') \<in> set (rx (Plus g c) (b, s, k))"
  then obtain st where 1: "st \<in> set (rx (Chr c) (b, s, k))" and 2: "(b', s', k') \<in> set (rx (Star g c) st)"
    unfolding Plus_def by (blast dest: rx_Seq_results)
  obtain b1 s1 k1 where st: "st = (b1, s1, k1)" by (cases st)
  from 1 st obtain x where "k1 = k" "s = x # s1" by (blast dest: rx_Chr_results)
  moreover from 2 st have "k' = k1" "suffix s' s1" by (blast dest: rx_Star_results)+
  ultimately show ?thesis by (auto simp: suffix_Cons dest: suffix_length_le)
qed

lemma rx_Grp_results:
  "(b', s', k') \<in> set (rx (Grp n p) (b, s, k)) \<Longrightarrow>
     \<exists>k0. (b', s', k0) \<in> set (rx p (b, s, k)) \<and> k' = (n, take (length s - length s') s) # k0"
  by (auto simp: rx.simps)

lemma rx_Opt_results:
  "(b', s', k') \<in> set (rx (Opt c) (b, s, k)) \<Longrightarrow> k' = k \<and> suffix s' s"
  by (cases s) (auto simp: Opt_def rx.simps suffix_Cons split: if_splits)

lemma rx_quote_fail: "CHR 0x22 \<notin> set s \<Longrightarrow> rx (Chr (lit (CHR 0x22))) (b, s, k) = []"
proof (cases s)
  case Nil
  then show ?thesis by (simp add: rx.simps)
next
  case (Cons x xs)
  assume "CHR 0x22 \<notin> set s"
  with Cons have "x \<noteq> CHR 0x22" by auto
  with Cons show ?thesis by (simp add: rx.simps lit_def)
qed

lemma quote_free_suffix: "suffix s' s \<Longrightarrow> CHR 0x22 \<notin> set s \<Longrightarrow> CHR 0x22 \<notin> set s'"
  by (auto dest: set_mono_suffix)

subsection \<open>The order of the matches\<close>

lemma rx_Chr_Cons: "rx (Chr c) (b, x # s, k) = (if c x then [(False, s, k)] else [])"
  by (simp add: rx.simps)

lemma rx_Chr_Nil: "rx (Chr c) (b, [], k) = []"
  by (simp add: rx.simps)

lemma rx_Star_stop: "s = [] \<or> \<not> c (hd s) \<Longrightarrow> rx (Star g c) (b, s, k) = [(b, s, k)]"
  by (cases s) (auto simp: rx.simps)

lemma star_shorter: "s' \<in> set (star g c s) \<Longrightarrow> length s' \<le> length s"
  by (auto dest!: star_suffix suffix_length_le)

lemma rx_Star_False: "rx (Star g c) (False, s, k) = map (\<lambda>s'. (False, s', k)) (star g c s)"
  by (simp add: rx.simps)

lemma rx_Star_tail:
  "map (\<lambda>s'. (b \<and> length s' = Suc (length s), s', k)) (star g c s) = rx (Star g c) (False, s, k)"
  unfolding rx_Star_False by (rule map_cong) (auto dest: star_shorter)

lemma rx_Star_lazy_Cons:
  "c x \<Longrightarrow> rx (Star False c) (b, x # s, k) = (b, x # s, k) # rx (Star False c) (False, s, k)"
  unfolding rx_Star_tail[symmetric, where b = b] by (simp add: rx.simps)

lemma rx_Plus_Cons:
  "rx (Plus g c) (b, x # s, k) = (if c x then rx (Star g c) (False, s, k) else [])"
  by (simp add: Plus_def rx.simps(3) rx_Chr_Cons)

lemma rx_Plus_Nil: "rx (Plus g c) (b, [], k) = []"
  by (simp add: Plus_def rx.simps(3) rx_Chr_Nil)

lemma first_Seq:
  "\<exists>t. rx p st = a # t \<Longrightarrow> \<exists>t. rx q a = c # t \<Longrightarrow> \<exists>t. rx (Seq p q) st = c # t"
  by (auto simp: rx.simps(3))

lemma first_Alt: "\<exists>t. rx p st = a # t \<Longrightarrow> \<exists>t. rx (Alt p q) st = a # t"
  by (auto simp: rx.simps(4))

lemma first_Grp:
  "\<exists>t. rx p (b, s, k) = (b', s', k') # t \<Longrightarrow>
   \<exists>t. rx (Grp n p) (b, s, k) = (b', s', (n, take (length s - length s') s) # k') # t"
  by (auto simp: rx.simps(5))

lemma first_Star_greedy:
  assumes "\<forall>x\<in>set u. c x" and "s = [] \<or> \<not> c (hd s)"
  shows "\<exists>t. rx (Star True c) (b, u @ s, k) = (b \<and> u = [], s, k) # t"
proof -
  have "dropWhile c (u @ s) = s"
    using assms by (cases s) (simp_all add: dropWhile_append3)
  with star_greedy_hd[of c "u @ s"] show ?thesis
    by (auto simp: rx.simps(6))
qed

lemma first_Plus_greedy:
  assumes "u \<noteq> []" and "\<forall>x\<in>set u. c x" and "s = [] \<or> \<not> c (hd s)"
  shows "\<exists>t. rx (Plus True c) (b, u @ s, k) = (False, s, k) # t"
proof -
  from assms(1) obtain x u' where u: "u = x # u'" by (cases u) auto
  with assms(2) have "c x" and "\<forall>x\<in>set u'. c x" by simp_all
  from first_Star_greedy[OF this(2) assms(3), of False k] \<open>c x\<close> u show ?thesis
    by (simp add: rx_Plus_Cons)
qed

section \<open>Properties of the argument parser: the tokens\<close>

lemma splitByComma_unfold:
  "splitByComma =
     Alt (Grp 1 (Seq (Plus False not_comma)
                     (Seq (Chr (lit (CHR 0x22))) (Seq (Plus True not_quote) (Chr (lit (CHR 0x22)))))))
         (Grp 2 (Plus True not_comma))"
  by (simp add: splitByComma_def)

lemma rx_closing_fail:
  assumes "CHR 0x22 \<notin> set s"
  shows "rx (Seq (Plus True not_quote) (Chr (lit (CHR 0x22)))) (b, s, k) = []"
proof -
  have "rx (Chr (lit (CHR 0x22))) st = []" if "st \<in> set (rx (Plus True not_quote) (b, s, k))" for st
  proof -
    obtain b1 s1 k1 where st: "st = (b1, s1, k1)" by (cases st)
    with that have "suffix s1 s" by (auto dest: rx_Plus_results)
    with assms have "CHR 0x22 \<notin> set s1" by (rule quote_free_suffix[rotated])
    then show ?thesis unfolding st by (rule rx_quote_fail)
  qed
  then show ?thesis by (simp add: rx.simps(3))
qed

lemma rx_quoted_fail_head:
  "s = [] \<or> hd s \<noteq> CHR 0x22 \<Longrightarrow>
     rx (Seq (Chr (lit (CHR 0x22))) (Seq (Plus True not_quote) (Chr (lit (CHR 0x22))))) (b, s, k) = []"
  by (cases s) (auto simp: rx.simps(3) rx_Chr_Cons rx_Chr_Nil lit_def)

lemma rx_quoted_fail_open:
  "CHR 0x22 \<notin> set s \<Longrightarrow>
     rx (Seq (Chr (lit (CHR 0x22))) (Seq (Plus True not_quote) (Chr (lit (CHR 0x22)))))
        (b, CHR 0x22 # s, k) = []"
  by (simp add: rx.simps(3)[of "Chr _"] rx_Chr_Cons lit_def rx_closing_fail)

lemma rx_quoted_first:
  assumes "v \<noteq> []" and "CHR 0x22 \<notin> set v"
  shows "\<exists>t. rx (Seq (Chr (lit (CHR 0x22))) (Seq (Plus True not_quote) (Chr (lit (CHR 0x22)))))
               (b, CHR 0x22 # v @ CHR 0x22 # r, k) = (False, r, k) # t"
proof -
  have nq: "\<forall>x\<in>set v. not_quote x" using assms(2) by (auto simp: not_quote_def)
  have stop: "CHR 0x22 # r = [] \<or> \<not> not_quote (hd (CHR 0x22 # r))" by (simp add: not_quote_def)
  have 1: "\<exists>t. rx (Plus True not_quote) (False, v @ CHR 0x22 # r, k) = (False, CHR 0x22 # r, k) # t"
    by (rule first_Plus_greedy[OF assms(1) nq stop])
  have 2: "\<exists>t. rx (Chr (lit (CHR 0x22))) (False, CHR 0x22 # r, k) = (False, r, k) # t"
    by (simp add: rx_Chr_Cons lit_def)
  have "\<exists>t. rx (Seq (Plus True not_quote) (Chr (lit (CHR 0x22)))) (False, v @ CHR 0x22 # r, k)
            = (False, r, k) # t"
    by (rule first_Seq[OF 1 2])
  then show ?thesis
    by (simp add: rx.simps(3)[of "Chr _"] rx_Chr_Cons lit_def)
qed

lemma rx_lazy_skip:
  assumes "\<forall>x\<in>set u. not_comma x \<and> x \<noteq> CHR 0x22"
  shows "rx (Seq (Star False not_comma)
               (Seq (Chr (lit (CHR 0x22))) (Seq (Plus True not_quote) (Chr (lit (CHR 0x22))))))
            (b, u @ s, k) =
         rx (Seq (Star False not_comma)
               (Seq (Chr (lit (CHR 0x22))) (Seq (Plus True not_quote) (Chr (lit (CHR 0x22))))))
            (b \<and> u = [], s, k)"
  using assms
proof (induction u arbitrary: b)
  case Nil
  show ?case by simp
next
  case (Cons x u)
  let ?X = "Seq (Chr (lit (CHR 0x22))) (Seq (Plus True not_quote) (Chr (lit (CHR 0x22))))"
  from Cons.prems have x: "not_comma x" "x \<noteq> CHR 0x22" and u: "\<forall>x\<in>set u. not_comma x \<and> x \<noteq> CHR 0x22"
    by simp_all
  have "rx (Seq (Star False not_comma) ?X) (b, (x # u) @ s, k) =
          rx ?X (b, x # u @ s, k) @ rx (Seq (Star False not_comma) ?X) (False, u @ s, k)"
    by (simp add: rx.simps(3)[of "Star _ _"] rx_Star_lazy_Cons[of not_comma x, OF x(1)])
  also have "rx ?X (b, x # u @ s, k) = []"
    using x(2) by (intro rx_quoted_fail_head) simp
  also have "rx (Seq (Star False not_comma) ?X) (False, u @ s, k) =
             rx (Seq (Star False not_comma) ?X) (False, s, k)"
    using Cons.IH[OF u, of False] by simp
  finally show ?case by simp
qed

lemma rx_token_Cons:
  "rx (Seq (Plus False not_comma) X) (b, x # s, k) =
     (if not_comma x then rx (Seq (Star False not_comma) X) (False, s, k) else [])"
  by (simp add: Plus_def rx.simps(3) rx_Chr_Cons)

text \<open>A token without a double quote: the first pattern fails on it.\<close>

lemma rx_token_plain:
  assumes "CHR '','' \<notin> set t" and "CHR 0x22 \<notin> set t" and "r = [] \<or> hd r = CHR '',''"
  shows "rx (Seq (Plus False not_comma)
               (Seq (Chr (lit (CHR 0x22))) (Seq (Plus True not_quote) (Chr (lit (CHR 0x22))))))
            (b, t @ r, k) = []"
proof (cases t)
  case Nil
  show ?thesis
  proof (cases r)
    case r: Nil
    have "rx (Plus False not_comma) (b, [], k) = []" by (rule rx_Plus_Nil)
    with Nil r show ?thesis by (simp add: rx.simps(3))
  next
    case (Cons c r')
    with assms(3) have "c = CHR '',''" by simp
    with Nil Cons show ?thesis by (simp add: rx_token_Cons not_comma_def)
  qed
next
  case (Cons x u)
  let ?X = "Seq (Chr (lit (CHR 0x22))) (Seq (Plus True not_quote) (Chr (lit (CHR 0x22))))"
  from assms(1,2) Cons have x: "not_comma x" and u: "\<forall>x\<in>set u. not_comma x \<and> x \<noteq> CHR 0x22"
    by (auto simp: not_comma_def)
  have stop: "r = [] \<or> \<not> not_comma (hd r)" using assms(3) by (auto simp: not_comma_def)
  have "rx (Seq (Plus False not_comma) ?X) (b, t @ r, k) =
          rx (Seq (Star False not_comma) ?X) (False \<and> u = [], r, k)"
    unfolding Cons using x rx_lazy_skip[OF u, of False r k] by (simp add: rx_token_Cons)
  also have "\<dots> = rx ?X (False \<and> u = [], r, k)"
    by (simp add: rx.simps(3)[of "Star _ _"] rx_Star_stop[where s = r and c = not_comma, OF stop])
  also have "\<dots> = []"
    using assms(3) by (intro rx_quoted_fail_head) auto
  finally show ?thesis .
qed

text \<open>A token that is a quoted string, before a text without a double quote: the first
  pattern fails on it.\<close>

lemma rx_token_bare_quoted:
  assumes "CHR '','' \<notin> set v" and "CHR 0x22 \<notin> set v" and "r = [] \<or> hd r = CHR '',''"
    and "CHR 0x22 \<notin> set r"
  shows "rx (Seq (Plus False not_comma)
               (Seq (Chr (lit (CHR 0x22))) (Seq (Plus True not_quote) (Chr (lit (CHR 0x22))))))
            (b, CHR 0x22 # v @ CHR 0x22 # r, k) = []"
proof -
  let ?X = "Seq (Chr (lit (CHR 0x22))) (Seq (Plus True not_quote) (Chr (lit (CHR 0x22))))"
  have v: "\<forall>x\<in>set v. not_comma x \<and> x \<noteq> CHR 0x22"
    using assms(1,2) by (auto simp: not_comma_def)
  have stop: "r = [] \<or> \<not> not_comma (hd r)" using assms(3) by (auto simp: not_comma_def)
  have q: "not_comma (CHR 0x22)" by (simp add: not_comma_def)
  have "rx (Seq (Plus False not_comma) ?X) (b, CHR 0x22 # v @ CHR 0x22 # r, k) =
          rx (Seq (Star False not_comma) ?X) (False \<and> v = [], CHR 0x22 # r, k)"
    using rx_lazy_skip[OF v, of False "CHR 0x22 # r" k] by (simp add: rx_token_Cons q)
  also have "\<dots> = rx ?X (False \<and> v = [], CHR 0x22 # r, k) @
                   rx (Seq (Star False not_comma) ?X) (False, r, k)"
    by (simp add: rx.simps(3)[of "Star _ _"] rx_Star_lazy_Cons[of not_comma "CHR 0x22", OF q])
  also have "rx ?X (False \<and> v = [], CHR 0x22 # r, k) = []"
    by (rule rx_quoted_fail_open[OF assms(4)])
  also have "rx (Seq (Star False not_comma) ?X) (False, r, k) = rx ?X (False, r, k)"
    by (simp add: rx.simps(3)[of "Star _ _"] rx_Star_stop[where s = r and c = not_comma, OF stop])
  also have "\<dots> = []"
    using assms(3) by (intro rx_quoted_fail_head) auto
  finally show ?thesis by simp
qed

text \<open>A token that ends with a quoted string after some text: the first pattern matches
  it, up to the closing quote.\<close>

lemma rx_token_quoted:
  assumes "p \<noteq> []" and "CHR '','' \<notin> set p" and "CHR 0x22 \<notin> set p"
    and "v \<noteq> []" and "CHR 0x22 \<notin> set v"
  shows "\<exists>t. rx (Seq (Plus False not_comma)
               (Seq (Chr (lit (CHR 0x22))) (Seq (Plus True not_quote) (Chr (lit (CHR 0x22))))))
            (b, p @ CHR 0x22 # v @ CHR 0x22 # r, k) = (False, r, k) # t"
proof -
  let ?X = "Seq (Chr (lit (CHR 0x22))) (Seq (Plus True not_quote) (Chr (lit (CHR 0x22))))"
  from assms(1) obtain x u where p: "p = x # u" by (cases p) auto
  with assms(2,3) have x: "not_comma x" and u: "\<forall>x\<in>set u. not_comma x \<and> x \<noteq> CHR 0x22"
    by (auto simp: not_comma_def)
  have q: "not_comma (CHR 0x22)" by (simp add: not_comma_def)
  have "rx (Seq (Plus False not_comma) ?X) (b, p @ CHR 0x22 # v @ CHR 0x22 # r, k) =
          rx (Seq (Star False not_comma) ?X) (False \<and> u = [], CHR 0x22 # v @ CHR 0x22 # r, k)"
    unfolding p using x rx_lazy_skip[OF u, of False "CHR 0x22 # v @ CHR 0x22 # r" k]
    by (simp add: rx_token_Cons)
  also have "\<dots> = rx ?X (False \<and> u = [], CHR 0x22 # v @ CHR 0x22 # r, k) @
                   rx (Seq (Star False not_comma) ?X) (False, v @ CHR 0x22 # r, k)"
    by (simp add: rx.simps(3)[of "Star _ _"] rx_Star_lazy_Cons[of not_comma "CHR 0x22", OF q])
  finally show ?thesis
    using rx_quoted_first[OF assms(4,5), of "False \<and> u = []" r k] by auto
qed

lemma rx_rest_of_token:
  assumes "t \<noteq> []" and "CHR '','' \<notin> set t" and "r = [] \<or> hd r = CHR '',''"
  shows "\<exists>tl. rx (Grp 2 (Plus True not_comma)) (b, t @ r, []) = (False, r, [(2, t)]) # tl"
proof -
  have nc: "\<forall>x\<in>set t. not_comma x" using assms(2) by (auto simp: not_comma_def)
  have stop: "r = [] \<or> \<not> not_comma (hd r)" using assms(3) by (auto simp: not_comma_def)
  from first_Grp[OF first_Plus_greedy[OF assms(1) nc stop, of b "[]"], of 2] show ?thesis by simp
qed

lemma ends_quotedD:
  assumes "ends_quoted t"
  shows "\<exists>p v. t = p @ CHR 0x22 # v @ [CHR 0x22] \<and> CHR 0x22 \<notin> set p \<and> v \<noteq> [] \<and> CHR 0x22 \<notin> set v \<and>
               (hd t \<noteq> CHR 0x22 \<longrightarrow> p \<noteq> [])"
proof -
  from assms obtain q r where d: "dropWhile not_quote t = q # r"
    and v: "takeWhile not_quote r \<noteq> []" and e: "dropWhile not_quote r = [CHR 0x22]"
    by (auto simp: ends_quoted_def split: list.splits)
  have "\<not> not_quote (hd (dropWhile not_quote t))"
    using d hd_dropWhile[of not_quote t] by simp
  with d have q: "q = CHR 0x22" by (simp add: not_quote_def)
  have t: "t = takeWhile not_quote t @ CHR 0x22 # takeWhile not_quote r @ [CHR 0x22]"
    using takeWhile_dropWhile_id[of not_quote t] takeWhile_dropWhile_id[of not_quote r] d e q
    by simp
  have 1: "CHR 0x22 \<notin> set (takeWhile not_quote t)" "CHR 0x22 \<notin> set (takeWhile not_quote r)"
    by (auto dest: set_takeWhileD simp: not_quote_def)
  have "takeWhile not_quote t \<noteq> []" if "hd t \<noteq> CHR 0x22"
  proof -
    from d have "t \<noteq> []" by auto
    with that show ?thesis by (cases t) (simp_all add: not_quote_def)
  qed
  with t 1 v show ?thesis by blast
qed

text \<open>The first match of the tokenizer at the beginning of a piece ends with the piece.\<close>

lemma rx_splitByComma_piece:
  assumes ne: "t \<noteq> []" and nc: "CHR '','' \<notin> set t" and r: "r = [] \<or> hd r = CHR '',''"
    and ok: "CHR 0x22 \<notin> set t \<or> (ends_quoted t \<and> (hd t \<noteq> CHR 0x22 \<or> CHR 0x22 \<notin> set r))"
  shows "\<exists>kk tl. rx splitByComma (b, t @ r, []) = (False, r, kk) # tl"
proof -
  let ?A = "Seq (Plus False not_comma)
               (Seq (Chr (lit (CHR 0x22))) (Seq (Plus True not_quote) (Chr (lit (CHR 0x22)))))"
  from rx_rest_of_token[OF ne nc r, of b]
  obtain tl2 where second: "rx (Grp 2 (Plus True not_comma)) (b, t @ r, []) = (False, r, [(2, t)]) # tl2"
    by blast
  consider (plain) "CHR 0x22 \<notin> set t"
    | (quoted) "ends_quoted t" "hd t \<noteq> CHR 0x22"
    | (bare) "ends_quoted t" "hd t = CHR 0x22" "CHR 0x22 \<notin> set r"
    using ok by blast
  then show ?thesis
  proof cases
    case plain
    have "rx ?A (b, t @ r, []) = []" by (rule rx_token_plain[OF nc plain r])
    then have "rx (Grp 1 ?A) (b, t @ r, []) = []" by (simp add: rx.simps(5))
    then have "rx splitByComma (b, t @ r, []) = (False, r, [(2, t)]) # tl2"
      unfolding splitByComma_unfold rx.simps(4) using second by simp
    then show ?thesis by blast
  next
    case quoted
    from ends_quotedD[OF quoted(1)] quoted(2) obtain p v
      where t: "t = p @ CHR 0x22 # v @ [CHR 0x22]" and p: "CHR 0x22 \<notin> set p" "p \<noteq> []"
        and v: "v \<noteq> []" "CHR 0x22 \<notin> set v" by blast
    from nc t have pc: "CHR '','' \<notin> set p" by simp
    from rx_token_quoted[OF p(2) pc p(1) v, of b r "[]"]
    have "\<exists>tl. rx ?A (b, t @ r, []) = (False, r, []) # tl"
      unfolding t by simp
    then have "\<exists>tl. rx (Grp 1 ?A) (b, t @ r, []) =
                   (False, r, (1, take (length (t @ r) - length r) (t @ r)) # []) # tl"
      by (rule first_Grp)
    then have "\<exists>tl. rx (Alt (Grp 1 ?A) (Grp 2 (Plus True not_comma))) (b, t @ r, []) =
                   (False, r, (1, take (length (t @ r) - length r) (t @ r)) # []) # tl"
      by (rule first_Alt)
    then show ?thesis
      unfolding splitByComma_unfold by blast
  next
    case bare
    from ends_quotedD[OF bare(1)] obtain p v
      where t: "t = p @ CHR 0x22 # v @ [CHR 0x22]" and p: "CHR 0x22 \<notin> set p"
        and v: "v \<noteq> []" "CHR 0x22 \<notin> set v" by blast
    from bare(2) t p have "p = []" by (cases p) auto
    with t have t': "t = CHR 0x22 # v @ [CHR 0x22]" by simp
    from nc t' have vc: "CHR '','' \<notin> set v" by simp
    have "rx ?A (b, t @ r, []) = []"
      unfolding t' using rx_token_bare_quoted[OF vc v(2) r bare(3), of b "[]"] by simp
    then have "rx (Grp 1 ?A) (b, t @ r, []) = []" by (simp add: rx.simps(5))
    then have "rx splitByComma (b, t @ r, []) = (False, r, [(2, t)]) # tl2"
      unfolding splitByComma_unfold rx.simps(4) using second by simp
    then show ?thesis by blast
  qed
qed

lemma rx_splitByComma_comma: "rx splitByComma (b, CHR '','' # s, []) = []"
  by (simp add: splitByComma_unfold rx.simps(4,5) rx.simps(3)[of "Plus _ _"] rx_Plus_Cons not_comma_def)

lemma rx_splitByComma_Nil: "rx splitByComma (b, [], []) = []"
  by (simp add: splitByComma_unfold rx.simps(4,5) rx.simps(3)[of "Plus _ _"] rx_Plus_Nil)

lemma rx_splitByComma_flag: "rx splitByComma (b, s, []) = rx splitByComma (False, s, [])"
  by (cases s)
    (simp_all add: splitByComma_unfold rx.simps(4,5) rx.simps(3)[of "Plus _ _"] rx_Plus_Cons rx_Plus_Nil)

lemma scan_splitByComma_any:
  "map text_of (scan splitByComma i b s) = map text_of (scan splitByComma j b' s)"
proof (induction s arbitrary: i b j b' rule: length_induct)
  case (1 s)
  have eq: "rx splitByComma (b, s, []) = rx splitByComma (b', s, [])"
    using rx_splitByComma_flag[of b s] rx_splitByComma_flag[of b' s] by simp
  show ?case
  proof (cases "rx splitByComma (b', s, [])")
    case Nil
    show ?thesis
    proof (cases s)
      case Nil
      then show ?thesis by (simp add: scan.simps[of _ _ _ "[]"] rx_splitByComma_Nil)
    next
      case (Cons x xs)
      with "1.IH" have "map text_of (scan splitByComma (Suc i) False xs) =
                        map text_of (scan splitByComma (Suc j) False xs)" by simp
      with Nil eq Cons show ?thesis
        by (simp add: scan.simps[of _ _ _ "x # xs"])
    qed
  next
    case (Cons st tl)
    obtain bb s' k where st: "st = (bb, s', k)" by (cases st)
    show ?thesis
    proof (cases "length s' < length s")
      case True
      with "1.IH" have "map text_of (scan splitByComma (i + (length s - length s')) False s') =
                        map text_of (scan splitByComma (j + (length s - length s')) False s')" by simp
      with Cons eq st True show ?thesis
        by (simp add: scan.simps[of _ _ _ s])
    next
      case False
      show ?thesis
      proof (cases s)
        case Nil
        with Cons eq st False show ?thesis by (simp add: scan.simps[of _ _ _ "[]"])
      next
        case c: (Cons x xs)
        with "1.IH" have "map text_of (scan splitByComma (Suc i) False xs) =
                        map text_of (scan splitByComma (Suc j) False xs)" by simp
        with Cons eq st False c show ?thesis
          by (simp add: scan.simps[of _ _ _ "x # xs"])
      qed
    qed
  qed
qed

lemma scan_piece:
  assumes "\<exists>kk tl. rx splitByComma (b, t @ r, []) = (False, r, kk) # tl" and "t \<noteq> []"
  shows "map text_of (scan splitByComma i b (t @ r)) = t # map text_of (scan splitByComma 0 True r)"
proof -
  from assms(1) obtain kk tl where m: "rx splitByComma (b, t @ r, []) = (False, r, kk) # tl" by blast
  have len: "length r < length (t @ r)" using assms(2) by simp
  have "scan splitByComma i b (t @ r) =
          \<lparr>index_of = i, text_of = t, rest_of = r, caps_of = kk\<rparr>
            # scan splitByComma (i + (length (t @ r) - length r)) False r"
    using m len by (subst scan.simps) simp
  then show ?thesis
    using scan_splitByComma_any[of "i + (length (t @ r) - length r)" False r 0 True] by simp
qed

lemma scan_comma:
  "map text_of (scan splitByComma i b (CHR '','' # r)) = map text_of (scan splitByComma 0 True r)"
proof -
  have "scan splitByComma i b (CHR '','' # r) = scan splitByComma (Suc i) False r"
    by (subst scan.simps) (simp add: rx_splitByComma_comma)
  then show ?thesis
    using scan_splitByComma_any[of "Suc i" False r 0 True] by simp
qed

lemma argList_scan: "argList s = map trim (map text_of (scan splitByComma 0 True s))"
  by (simp add: argList_def forEach_def comp_def)

lemma argList_Nil: "argList [] = []"
  by (simp add: argList_scan scan.simps[of _ _ _ "[]"] rx_splitByComma_Nil)

lemma argList_comma: "argList (CHR '','' # r) = argList r"
  by (simp add: argList_scan scan_comma)

lemma argList_piece:
  assumes "t \<noteq> []" and "CHR '','' \<notin> set t" and "r = [] \<or> hd r = CHR '',''"
    and "CHR 0x22 \<notin> set t \<or> (ends_quoted t \<and> (hd t \<noteq> CHR 0x22 \<or> CHR 0x22 \<notin> set r))"
  shows "argList (t @ r) = trim t # argList r"
  using scan_piece[OF rx_splitByComma_piece[OF assms, of True] assms(1), of 0]
  by (simp add: argList_scan)


subsection \<open>The tokens of every string\<close>

declare tokens.simps [simp del]

lemma quoted_end_SomeD:
  assumes "quoted_end s = Some r"
  shows "\<exists>v. s = CHR 0x22 # v @ CHR 0x22 # r \<and> v \<noteq> [] \<and> CHR 0x22 \<notin> set v"
proof -
  from assms obtain xs where s: "s = CHR 0x22 # xs" and v: "takeWhile not_quote xs \<noteq> []"
    and d: "dropWhile not_quote xs \<noteq> []" and r: "r = tl (dropWhile not_quote xs)"
    by (cases s) (auto simp: quoted_end_def split: if_splits)
  from d have "\<not> not_quote (hd (dropWhile not_quote xs))" by (rule hd_dropWhile)
  with d r have "dropWhile not_quote xs = CHR 0x22 # r"
    by (cases "dropWhile not_quote xs") (simp_all add: not_quote_def)
  with takeWhile_dropWhile_id[of not_quote xs]
  have "xs = takeWhile not_quote xs @ CHR 0x22 # r" by simp
  moreover have "CHR 0x22 \<notin> set (takeWhile not_quote xs)"
    by (auto dest: set_takeWhileD simp: not_quote_def)
  ultimately show ?thesis using s v by blast
qed

lemma rx_quoted_end_Some:
  assumes "quoted_end s = Some r"
  shows "\<exists>tl. rx (Seq (Chr (lit (CHR 0x22))) (Seq (Plus True not_quote) (Chr (lit (CHR 0x22)))))
               (b, s, k) = (False, r, k) # tl"
proof -
  from quoted_end_SomeD[OF assms] obtain v where s: "s = CHR 0x22 # v @ CHR 0x22 # r"
    and v: "v \<noteq> []" "CHR 0x22 \<notin> set v" by blast
  show ?thesis unfolding s by (rule rx_quoted_first[OF v])
qed

lemma rx_quoted_end_None:
  assumes "quoted_end s = None"
  shows "rx (Seq (Chr (lit (CHR 0x22))) (Seq (Plus True not_quote) (Chr (lit (CHR 0x22)))))
            (b, s, k) = []"
proof (cases "s = [] \<or> hd s \<noteq> CHR 0x22")
  case True
  then show ?thesis by (rule rx_quoted_fail_head)
next
  case False
  then obtain xs where s: "s = CHR 0x22 # xs" by (cases s) auto
  with assms consider (empty) "takeWhile not_quote xs = []" | (unclosed) "dropWhile not_quote xs = []"
    by (auto simp: quoted_end_def split: if_splits)
  then show ?thesis
  proof cases
    case empty
    have "rx (Plus True not_quote) (False, xs, k) = []"
    proof (cases xs)
      case Nil
      then show ?thesis by (simp add: rx_Plus_Nil)
    next
      case (Cons y ys)
      with empty have "\<not> not_quote y" by (auto split: if_splits)
      with Cons show ?thesis by (simp add: rx_Plus_Cons)
    qed
    then show ?thesis
      unfolding s by (simp add: rx.simps(3) rx_Chr_Cons lit_def)
  next
    case unclosed
    then have "CHR 0x22 \<notin> set xs" by (auto simp: not_quote_def)
    then show ?thesis unfolding s by (rule rx_quoted_fail_open)
  qed
qed

lemma rx_token_end:
  "(token_end s = None \<longrightarrow>
      rx (Seq (Star False not_comma)
            (Seq (Chr (lit (CHR 0x22))) (Seq (Plus True not_quote) (Chr (lit (CHR 0x22))))))
         (b, s, k) = []) \<and>
   (\<forall>r. token_end s = Some r \<longrightarrow>
      (\<exists>tl. rx (Seq (Star False not_comma)
            (Seq (Chr (lit (CHR 0x22))) (Seq (Plus True not_quote) (Chr (lit (CHR 0x22))))))
         (b, s, k) = (False, r, k) # tl))"
proof (induction s arbitrary: b)
  case Nil
  show ?case
    by (simp add: rx.simps(3)[of "Star _ _"] rx_Star_stop rx_quoted_fail_head)
next
  case (Cons y ys)
  let ?X = "Seq (Chr (lit (CHR 0x22))) (Seq (Plus True not_quote) (Chr (lit (CHR 0x22))))"
  show ?case
  proof (cases "quoted_end (y # ys)")
    case (Some r)
    then have y: "not_comma y" by (auto simp: quoted_end_def not_comma_def split: if_splits)
    from rx_quoted_end_Some[OF Some, of b k] obtain tl where "rx ?X (b, y # ys, k) = (False, r, k) # tl"
      by blast
    then have "\<exists>tl. rx (Seq (Star False not_comma) ?X) (b, y # ys, k) = (False, r, k) # tl"
      by (simp add: rx.simps(3)[of "Star _ _"] rx_Star_lazy_Cons[of not_comma y, OF y])
    with Some show ?thesis by simp
  next
    case None
    note here = rx_quoted_end_None[OF None, of b k]
    show ?thesis
    proof (cases "y = CHR '',''")
      case True
      have "rx (Star False not_comma) (b, y # ys, k) = [(b, y # ys, k)]"
        using True by (intro rx_Star_stop) (simp add: not_comma_def)
      then have "rx (Seq (Star False not_comma) ?X) (b, y # ys, k) = []"
        using here by (simp add: rx.simps(3)[of "Star _ _"])
      with None True show ?thesis by simp
    next
      case False
      then have y: "not_comma y" by (simp add: not_comma_def)
      have "rx (Seq (Star False not_comma) ?X) (b, y # ys, k) =
              rx (Seq (Star False not_comma) ?X) (False, ys, k)"
        using here by (simp add: rx.simps(3)[of "Star _ _"] rx_Star_lazy_Cons[of not_comma y, OF y])
      with None False Cons.IH[of False] show ?thesis by simp
    qed
  qed
qed

lemma quoted_end_suffix: "quoted_end s = Some r \<Longrightarrow> suffix r s \<and> length r < length s"
  by (auto dest!: quoted_end_SomeD simp: suffix_def)

lemma token_end_suffix: "token_end s = Some r \<Longrightarrow> suffix r s \<and> length r < length s"
proof (induction s)
  case Nil
  then show ?case by simp
next
  case (Cons y ys)
  show ?case
  proof (cases "quoted_end (y # ys)")
    case None
    with Cons show ?thesis by (auto simp: suffix_Cons split: if_splits)
  next
    case (Some r')
    with Cons.prems quoted_end_suffix[OF Some] show ?thesis by simp
  qed
qed

lemma rx_splitByComma_token:
  assumes "x \<noteq> CHR '',''"
  shows "\<exists>kk tl. rx splitByComma (b, x # xs, []) =
           (False, (case token_end xs of Some r \<Rightarrow> r | None \<Rightarrow> dropWhile not_comma xs), kk) # tl"
proof -
  let ?A = "Seq (Plus False not_comma)
               (Seq (Chr (lit (CHR 0x22))) (Seq (Plus True not_quote) (Chr (lit (CHR 0x22)))))"
  have x: "not_comma x" using assms by (simp add: not_comma_def)
  show ?thesis
  proof (cases "token_end xs")
    case None
    with rx_token_end[of xs False "[]"] x have "rx ?A (b, x # xs, []) = []"
      by (simp add: rx_token_Cons)
    then have 1: "rx (Grp 1 ?A) (b, x # xs, []) = []" by (simp add: rx.simps(5))
    have r: "dropWhile not_comma xs = [] \<or> hd (dropWhile not_comma xs) = CHR '',''"
      using hd_dropWhile[of not_comma xs] by (auto simp: not_comma_def)
    have nc: "CHR '','' \<notin> set (x # takeWhile not_comma xs)"
      using assms by (auto dest: set_takeWhileD simp: not_comma_def)
    from rx_rest_of_token[OF _ nc r, of b]
    obtain tl where "rx (Grp 2 (Plus True not_comma)) (b, x # xs, []) =
        (False, dropWhile not_comma xs, [(2, x # takeWhile not_comma xs)]) # tl"
      by auto
    then have "rx splitByComma (b, x # xs, []) =
        (False, dropWhile not_comma xs, [(2, x # takeWhile not_comma xs)]) # tl"
      unfolding splitByComma_unfold rx.simps(4) 1 by simp
    with None show ?thesis by auto
  next
    case (Some r)
    with rx_token_end[of xs False "[]"] x
    have "\<exists>tl. rx ?A (b, x # xs, []) = (False, r, []) # tl"
      by (simp add: rx_token_Cons)
    then have "\<exists>tl. rx (Grp 1 ?A) (b, x # xs, []) =
                   (False, r, (1, take (length (x # xs) - length r) (x # xs)) # []) # tl"
      by (rule first_Grp)
    then have "\<exists>tl. rx (Alt (Grp 1 ?A) (Grp 2 (Plus True not_comma))) (b, x # xs, []) =
                   (False, r, (1, take (length (x # xs) - length r) (x # xs)) # []) # tl"
      by (rule first_Alt)
    with Some show ?thesis
      unfolding splitByComma_unfold by auto
  qed
qed

lemma scan_tokens: "map text_of (scan splitByComma i b s) = tokens s"
proof (induction s arbitrary: i b rule: length_induct)
  case (1 s)
  show ?case
  proof (cases s)
    case Nil
    then show ?thesis
      by (simp add: scan.simps[of _ _ _ "[]"] rx_splitByComma_Nil tokens.simps)
  next
    case (Cons x xs)
    show ?thesis
    proof (cases "x = CHR '',''")
      case True
      with "1.IH" Cons have "map text_of (scan splitByComma 0 True xs) = tokens xs" by simp
      with True Cons show ?thesis by (simp add: scan_comma tokens.simps)
    next
      case False
      define r where "r = (case token_end xs of Some r \<Rightarrow> r | None \<Rightarrow> dropWhile not_comma xs)"
      have suf: "suffix r xs"
        unfolding r_def by (auto split: option.split dest: token_end_suffix simp: suffix_dropWhile)
      then obtain t0 where xs: "xs = t0 @ r" by (auto simp: suffix_def)
      have len: "length r < length s"
        unfolding Cons xs by simp
      have t: "take (length (x # xs) - length r) (x # xs) = x # t0"
        unfolding xs by simp
      have t': "x # t0 = x # takeWhile not_comma xs" if "token_end xs = None"
      proof -
        from that have "r = dropWhile not_comma xs" by (simp add: r_def)
        with xs have "xs = t0 @ dropWhile not_comma xs" by simp
        then have "t0 = takeWhile not_comma xs"
          by (metis append_same_eq takeWhile_dropWhile_id)
        then show ?thesis by simp
      qed
      from rx_splitByComma_token[OF False, of b xs]
      have "\<exists>kk tl. rx splitByComma (b, x # xs, []) = (False, r, kk) # tl"
        unfolding r_def .
      then have "\<exists>kk tl. rx splitByComma (b, (x # t0) @ r, []) = (False, r, kk) # tl"
        unfolding xs by simp
      from scan_piece[OF this, of i]
      have "map text_of (scan splitByComma i b ((x # t0) @ r)) =
              (x # t0) # map text_of (scan splitByComma 0 True r)"
        by simp
      also have "map text_of (scan splitByComma 0 True r) = tokens r"
        using "1.IH" len by simp
      finally have sc: "map text_of (scan splitByComma i b (x # xs)) = (x # t0) # tokens r"
        unfolding xs by simp
      show ?thesis
      proof (cases "token_end xs")
        case None
        then have "tokens (x # xs) = (x # takeWhile not_comma xs) # tokens r"
          using False by (simp add: tokens.simps r_def)
        with sc t'[OF None] Cons show ?thesis by simp
      next
        case (Some r')
        then have "tokens (x # xs) = take (length (x # xs) - length r) (x # xs) # tokens r"
          using False by (simp add: tokens.simps r_def)
        with sc t Cons show ?thesis by simp
      qed
    qed
  qed
qed

lemma argList_tokens: "argList s = map trim (tokens s)"
  by (simp add: argList_scan scan_tokens)

subsection \<open>The tokens of a string with plain quoting\<close>

lemma hd_split_commas: "hd (split_commas xs) = takeWhile not_comma xs"
  by (induction xs) (simp_all add: not_comma_def)

lemma tl_split_commas:
  "tl (split_commas xs) = (case dropWhile not_comma xs of [] \<Rightarrow> [] | c # r \<Rightarrow> split_commas r)"
  by (induction xs) (simp_all add: not_comma_def)

lemma split_commas_Cons:
  "x \<noteq> CHR '','' \<Longrightarrow>
     split_commas (x # xs) =
       (x # takeWhile not_comma xs) # (case dropWhile not_comma xs of [] \<Rightarrow> [] | c # r \<Rightarrow> split_commas r)"
  by (simp add: hd_split_commas tl_split_commas)

lemma split_commas_covers:
  "x \<in> set s \<Longrightarrow> x \<noteq> CHR '','' \<Longrightarrow> \<exists>p \<in> set (split_commas s). x \<in> set p"
proof (induction s)
  case Nil
  then show ?case by simp
next
  case (Cons y ys)
  have ne: "split_commas ys \<noteq> []" by (cases ys) simp_all
  then have sp: "split_commas ys = hd (split_commas ys) # tl (split_commas ys)" by simp
  show ?case
  proof (cases "x \<in> set ys")
    case True
    from Cons.IH[OF True Cons.prems(2)] obtain p where p: "p \<in> set (split_commas ys)" "x \<in> set p"
      by blast
    show ?thesis
    proof (cases "y = CHR '',''")
      case True
      with p show ?thesis by auto
    next
      case False
      from p(1) sp have "p = hd (split_commas ys) \<or> p \<in> set (tl (split_commas ys))"
        by (metis set_ConsD)
      with p(2) False show ?thesis by auto
    qed
  next
    case False
    with Cons.prems have "x = y" "y \<noteq> CHR '','' " by auto
    then show ?thesis by simp
  qed
qed

lemma argList_plain:
  "plain_quoting (split_commas s) \<Longrightarrow>
     argList s = map trim (filter (\<lambda>t. t \<noteq> []) (split_commas s))"
proof (induction s rule: length_induct)
  case (1 s)
  note ok = "1.prems"
  show ?case
  proof (cases s)
    case Nil
    then show ?thesis by (simp add: argList_Nil)
  next
    case (Cons x xs)
    show ?thesis
    proof (cases "x = CHR '',''")
      case True
      with ok Cons have "plain_quoting (split_commas xs)" by simp
      with "1.IH" Cons have "argList xs = map trim (filter (\<lambda>t. t \<noteq> []) (split_commas xs))" by simp
      with True Cons show ?thesis by (simp add: argList_comma)
    next
      case False
      let ?t = "x # takeWhile not_comma xs"
      let ?r = "dropWhile not_comma xs"
      let ?later = "case ?r of [] \<Rightarrow> [] | c # r \<Rightarrow> split_commas r"
      have sp: "split_commas s = ?t # ?later"
        unfolding Cons by (rule split_commas_Cons[OF False])
      have s: "s = ?t @ ?r" using Cons by simp
      have ne: "?t \<noteq> []" by simp
      have nc: "CHR '','' \<notin> set ?t"
        using False by (auto dest: set_takeWhileD simp: not_comma_def)
      have r: "?r = [] \<or> hd ?r = CHR '',''"
        using hd_dropWhile[of not_comma xs] by (auto simp: not_comma_def)
      from ok sp have c: "CHR 0x22 \<notin> set ?t \<or>
          (ends_quoted ?t \<and> (hd ?t \<noteq> CHR 0x22 \<or> (\<forall>u \<in> set ?later. CHR 0x22 \<notin> set u)))"
        and later: "plain_quoting ?later" by simp_all
      have free: "CHR 0x22 \<notin> set ?r" if "\<forall>u \<in> set ?later. CHR 0x22 \<notin> set u"
      proof (cases ?r)
        case Nil
        show ?thesis unfolding Nil by simp
      next
        case (Cons c r')
        with r have cc: "c = CHR '',''" by simp
        have "CHR 0x22 \<notin> set r'"
        proof
          assume "CHR 0x22 \<in> set r'"
          from split_commas_covers[OF this] obtain p where "p \<in> set (split_commas r')" "CHR 0x22 \<in> set p"
            by auto
          with that Cons show False by simp
        qed
        with Cons cc show ?thesis by simp
      qed
      from c free have c': "CHR 0x22 \<notin> set ?t \<or> (ends_quoted ?t \<and> (hd ?t \<noteq> CHR 0x22 \<or> CHR 0x22 \<notin> set ?r))"
        by blast
      have step: "argList s = trim ?t # argList ?r"
        using argList_piece[OF ne nc r c'] s by simp
      have rest: "argList ?r = map trim (filter (\<lambda>t. t \<noteq> []) ?later)"
      proof (cases ?r)
        case Nil
        show ?thesis unfolding Nil by (simp add: argList_Nil)
      next
        case (Cons c r')
        with r have cc: "c = CHR '',''" by simp
        have "length r' < length s"
          using Cons length_dropWhile_le[of not_comma xs] \<open>s = x # xs\<close> by simp
        moreover have "plain_quoting (split_commas r')" using later Cons by simp
        ultimately have "argList r' = map trim (filter (\<lambda>t. t \<noteq> []) (split_commas r'))"
          using "1.IH" by simp
        with Cons cc show ?thesis by (simp add: argList_comma)
      qed
      show ?thesis
        unfolding step rest sp by simp
    qed
  qed
qed

section \<open>Properties of the argument parser: the classification\<close>

lemma rx_SeqE:
  assumes "(b'', s'', k'') \<in> set (rx (Seq p q) (b, s, k))"
  obtains b' s' k' where "(b', s', k') \<in> set (rx p (b, s, k))"
    and "(b'', s'', k'') \<in> set (rx q (b', s', k'))"
  using assms by (auto simp: rx.simps)

lemma rx_Bol_results: "(b', s', k') \<in> set (rx Bol (b, s, k)) \<Longrightarrow> s' = s \<and> k' = k"
  by (auto simp: rx.simps split: if_splits)

lemma rx_Eol_results: "(b', s', k') \<in> set (rx Eol (b, s, k)) \<Longrightarrow> s' = s \<and> k' = k \<and> s = []"
  by (auto simp: rx.simps split: if_splits)

lemma splitValues_unfold:
  "splitValues =
     Alt (Seq Bol (Grp 1 (Seq (Grp 2 (Plus True is_alpha)) (Seq (Star True is_space) (Seq (Chr
         (lit CHR ''='')) (Seq (Star True is_space) (Grp 3 (Alt (Grp 4 (Seq (Chr (lit (CHR
         0x22))) (Seq (Grp 5 (Star True not_quote)) (Chr (lit (CHR 0x22)))))) (Seq (Opt (lit
         (CHR 0x22))) (Seq (Grp 6 (Plus True dot)) (Opt (lit (CHR 0x22)))))))))))))
         (Seq (Grp 7 (Plus True dot)) Eol)"
  by (simp add: splitValues_def)


subsection \<open>Every match of the classification pattern yields a Param\<close>

lemma rx_plain_results:
  assumes "(b', s', k') \<in> set (rx (Seq (Grp 7 (Plus True dot)) Eol) (b, s, []))"
  shows "\<exists>v. v \<noteq> [] \<and> k' = [(7, v)]"
proof -
  from assms obtain b1 s1 k1 where 1: "(b1, s1, k1) \<in> set (rx (Grp 7 (Plus True dot)) (b, s, []))"
    and 2: "(b', s', k') \<in> set (rx Eol (b1, s1, k1))" by (rule rx_SeqE)
  from 1 obtain k0 where 3: "(b1, s1, k0) \<in> set (rx (Plus True dot) (b, s, []))"
    and k1: "k1 = (7, take (length s - length s1) s) # k0" by (blast dest: rx_Grp_results)
  from 3 have "k0 = []" and "length s1 < length s" by (blast dest: rx_Plus_results)+
  moreover from 2 have "k' = k1" by (blast dest: rx_Eol_results)
  ultimately show ?thesis using k1 by auto
qed

lemma rx_quoted_value_results:
  assumes "(b', s', k') \<in> set (rx (Grp 4 (Seq (Chr (lit (CHR 0x22))) (Seq (Grp 5 (Star True not_quote))
                                                                  (Chr (lit (CHR 0x22))))))
                               (b, s, k))"
  shows "\<exists>v u. k' = (4, u) # (5, v) # k \<and> (v = [] \<longrightarrow> prefix [CHR 0x22, CHR 0x22] s)"
proof -
  from assms obtain kd where 1: "(b', s', kd) \<in> set (rx (Seq (Chr (lit (CHR 0x22)))
        (Seq (Grp 5 (Star True not_quote)) (Chr (lit (CHR 0x22))))) (b, s, k))"
    and k': "k' = (4, take (length s - length s') s) # kd" by (blast dest: rx_Grp_results)
  from 1 obtain b5 s5 k5 where 2: "(b5, s5, k5) \<in> set (rx (Chr (lit (CHR 0x22))) (b, s, k))"
    and 3: "(b', s', kd) \<in> set (rx (Seq (Grp 5 (Star True not_quote)) (Chr (lit (CHR 0x22)))) (b5, s5, k5))"
    by (rule rx_SeqE)
  from 2 have k5: "k5 = k" and s: "s = CHR 0x22 # s5"
    by (auto dest!: rx_Chr_results simp: lit_def)
  from 3 obtain b6 s6 k6 where 4: "(b6, s6, k6) \<in> set (rx (Grp 5 (Star True not_quote)) (b5, s5, k5))"
    and 5: "(b', s', kd) \<in> set (rx (Chr (lit (CHR 0x22))) (b6, s6, k6))"
    by (rule rx_SeqE)
  from 4 obtain k0 where 6: "(b6, s6, k0) \<in> set (rx (Star True not_quote) (b5, s5, k5))"
    and k6: "k6 = (5, take (length s5 - length s6) s5) # k0" by (blast dest: rx_Grp_results)
  from 6 have k0: "k0 = k5" and suf: "suffix s6 s5" by (blast dest: rx_Star_results)+
  from 5 have kd: "kd = k6" and s6: "s6 = CHR 0x22 # s'"
    by (auto dest!: rx_Chr_results simp: lit_def)
  have "prefix [CHR 0x22, CHR 0x22] s" if "take (length s5 - length s6) s5 = []"
  proof -
    from that have "length s5 \<le> length s6" by (auto simp: take_eq_Nil)
    moreover from suf obtain zs where "s5 = zs @ s6" by (auto simp: suffix_def)
    ultimately have "s6 = s5" by simp
    with s s6 show ?thesis by simp
  qed
  with k' kd k6 k0 k5 show ?thesis by blast
qed

lemma rx_bare_value_results:
  assumes "(b', s', k') \<in> set (rx (Seq (Opt (lit (CHR 0x22))) (Seq (Grp 6 (Plus True dot)) (Opt (lit (CHR 0x22)))))
                               (b, s, k))"
  shows "\<exists>v. v \<noteq> [] \<and> k' = (6, v) # k"
proof -
  from assms obtain b0 s0 k0 where 0: "(b0, s0, k0) \<in> set (rx (Opt (lit (CHR 0x22))) (b, s, k))"
    and 1: "(b', s', k') \<in> set (rx (Seq (Grp 6 (Plus True dot)) (Opt (lit (CHR 0x22)))) (b0, s0, k0))"
    by (rule rx_SeqE)
  from 0 have k0: "k0 = k" by (blast dest: rx_Opt_results)
  from 1 obtain b1 s1 k1 where 2: "(b1, s1, k1) \<in> set (rx (Grp 6 (Plus True dot)) (b0, s0, k0))"
    and 3: "(b', s', k') \<in> set (rx (Opt (lit (CHR 0x22))) (b1, s1, k1))" by (rule rx_SeqE)
  from 2 obtain ka where 4: "(b1, s1, ka) \<in> set (rx (Plus True dot) (b0, s0, k0))"
    and k1: "k1 = (6, take (length s0 - length s1) s0) # ka" by (blast dest: rx_Grp_results)
  from 4 have ka: "ka = k0" and len: "length s1 < length s0"
    by (blast dest: rx_Plus_results)+
  from 3 have "k' = k1" by (blast dest: rx_Opt_results)
  with k1 ka k0 len show ?thesis by auto
qed

lemma rx_named_results:
  assumes "(b', s', k') \<in> set (rx
            (Seq Bol (Grp 1 (Seq (Grp 2 (Plus True is_alpha)) (Seq (Star True is_space) (Seq (Chr
            (lit CHR ''='')) (Seq (Star True is_space) (Grp 3 (Alt (Grp 4 (Seq (Chr (lit (CHR
            0x22))) (Seq (Grp 5 (Star True not_quote)) (Chr (lit (CHR 0x22)))))) (Seq (Opt (lit
            (CHR 0x22))) (Seq (Grp 6 (Plus True dot)) (Opt (lit (CHR 0x22)))))))))))))
            (b, s, []))"
  shows "CHR ''='' \<in> set s \<and> s \<noteq> [] \<and> is_alpha (hd s) \<and>
         (\<exists>s4 n u3 u1. suffix s4 s \<and>
            ((\<exists>v. v \<noteq> [] \<and> k' = [(1, u1), (3, u3), (6, v), (2, n)]) \<or>
             (\<exists>v u4. k' = [(1, u1), (3, u3), (4, u4), (5, v), (2, n)] \<and>
                      (v = [] \<longrightarrow> prefix [CHR 0x22, CHR 0x22] s4))))"
proof -
  let ?G4 = "Grp 4 (Seq (Chr (lit (CHR 0x22))) (Seq (Grp 5 (Star True not_quote)) (Chr (lit (CHR 0x22)))))"
  let ?R6 = "Seq (Opt (lit (CHR 0x22))) (Seq (Grp 6 (Plus True dot)) (Opt (lit (CHR 0x22))))"
  let ?G3 = "Grp 3 (Alt ?G4 ?R6)"
  let ?body = "Seq (Grp 2 (Plus True is_alpha)) (Seq (Star True is_space) (Seq (Chr (lit CHR ''=''))
                 (Seq (Star True is_space) ?G3)))"
  from assms obtain b0 s0 k0 where 0: "(b0, s0, k0) \<in> set (rx Bol (b, s, []))"
    and 1: "(b', s', k') \<in> set (rx (Grp 1 ?body) (b0, s0, k0))"
    by (rule rx_SeqE)
  from 0 have s0: "s0 = s" and k0: "k0 = []" by (blast dest: rx_Bol_results)+
  from 1 obtain ka where 2: "(b', s', ka) \<in> set (rx ?body (b0, s0, k0))"
    and k': "k' = (1, take (length s0 - length s') s0) # ka" by (blast dest: rx_Grp_results)
  from 2 obtain b1 s1 k1 where 3: "(b1, s1, k1) \<in> set (rx (Grp 2 (Plus True is_alpha)) (b0, s0, k0))"
    and 4: "(b', s', ka) \<in> set (rx (Seq (Star True is_space) (Seq (Chr (lit CHR ''=''))
                 (Seq (Star True is_space) ?G3))) (b1, s1, k1))" by (rule rx_SeqE)
  from 3 obtain kb where 5: "(b1, s1, kb) \<in> set (rx (Plus True is_alpha) (b0, s0, k0))"
    and k1: "k1 = (2, take (length s0 - length s1) s0) # kb" by (blast dest: rx_Grp_results)
  from 5 have kb: "kb = k0" and suf1: "suffix s1 s0" by (blast dest: rx_Plus_results)+
  from 5 obtain bq sq kq where "(bq, sq, kq) \<in> set (rx (Chr is_alpha) (b0, s0, k0))"
    unfolding Plus_def by (auto dest!: rx_Seq_results)
  from rx_Chr_results[OF this] obtain x where "s0 = x # sq" "is_alpha x" by blast
  then have al: "s \<noteq> [] \<and> is_alpha (hd s)"
    using s0 by auto
  from 4 obtain b2 s2 k2 where 6: "(b2, s2, k2) \<in> set (rx (Star True is_space) (b1, s1, k1))"
    and 7: "(b', s', ka) \<in> set (rx (Seq (Chr (lit CHR ''='')) (Seq (Star True is_space) ?G3)) (b2, s2, k2))"
    by (rule rx_SeqE)
  from 6 have k2: "k2 = k1" and suf2: "suffix s2 s1" by (blast dest: rx_Star_results)+
  from 7 obtain b3 s3 k3 where 8: "(b3, s3, k3) \<in> set (rx (Chr (lit CHR ''='')) (b2, s2, k2))"
    and 9: "(b', s', ka) \<in> set (rx (Seq (Star True is_space) ?G3) (b3, s3, k3))"
    by (rule rx_SeqE)
  from 8 have k3: "k3 = k2" and eq: "s2 = CHR ''='' # s3"
    by (auto dest!: rx_Chr_results simp: lit_def)
  then have suf3: "suffix s3 s2" by (auto simp: suffix_Cons)
  from suf1 suf2 s0 have "suffix s2 s" by (auto intro: suffix_order.trans)
  with eq have e: "CHR ''='' \<in> set s" by (auto dest: set_mono_suffix)
  from 9 obtain b4 s4 k4 where 10: "(b4, s4, k4) \<in> set (rx (Star True is_space) (b3, s3, k3))"
    and 11: "(b', s', ka) \<in> set (rx ?G3 (b4, s4, k4))"
    by (rule rx_SeqE)
  from 10 have k4: "k4 = k3" and suf4: "suffix s4 s3" by (blast dest: rx_Star_results)+
  from suf1 suf2 suf3 suf4 s0 have s4: "suffix s4 s" by (auto intro: suffix_order.trans)
  from 11 obtain kc where 12: "(b', s', kc) \<in> set (rx (Alt ?G4 ?R6) (b4, s4, k4))"
    and ka: "ka = (3, take (length s4 - length s') s4) # kc" by (blast dest: rx_Grp_results)
  from 12 consider (quoted) "(b', s', kc) \<in> set (rx ?G4 (b4, s4, k4))"
    | (bare) "(b', s', kc) \<in> set (rx ?R6 (b4, s4, k4))"
    by (auto simp: rx.simps(4))
  then have kc: "(\<exists>v. v \<noteq> [] \<and> kc = (6, v) # k4) \<or>
             (\<exists>v u4. kc = (4, u4) # (5, v) # k4 \<and> (v = [] \<longrightarrow> prefix [CHR 0x22, CHR 0x22] s4))"
  proof cases
    case quoted
    from rx_quoted_value_results[OF this] show ?thesis by blast
  next
    case bare
    from rx_bare_value_results[OF this] show ?thesis by blast
  qed
  have k4': "k4 = [(2, take (length s - length s1) s)]"
    using k4 k3 k2 k1 kb k0 s0 by simp
  have k'': "k' = (1, take (length s - length s') s) # (3, take (length s4 - length s') s4) # kc"
    using k' ka s0 by simp
  from kc have "(\<exists>v. v \<noteq> [] \<and> k' = [(1, take (length s - length s') s),
                       (3, take (length s4 - length s') s4), (6, v), (2, take (length s - length s1) s)]) \<or>
             (\<exists>v u4. k' = [(1, take (length s - length s') s), (3, take (length s4 - length s') s4),
                       (4, u4), (5, v), (2, take (length s - length s1) s)] \<and>
                      (v = [] \<longrightarrow> prefix [CHR 0x22, CHR 0x22] s4))"
    unfolding k'' k4' by simp
  with s4 e al show ?thesis by blast
qed

lemma rx_splitValues_results:
  assumes nq: "\<not> sublist [CHR 0x22, CHR 0x22] s" and m: "(b', s', k') \<in> set (rx splitValues (b, s, []))"
  shows "(\<exists>v. v \<noteq> [] \<and> map_of k' 7 = Some v) \<or>
         (map_of k' 7 = None \<and> (\<exists>v. v \<noteq> [] \<and> map_of k' 6 = Some v)) \<or>
         (map_of k' 7 = None \<and> map_of k' 6 = None \<and> (\<exists>v. v \<noteq> [] \<and> map_of k' 5 = Some v))"
proof -
  from m consider (named) "(b', s', k') \<in> set (rx
            (Seq Bol (Grp 1 (Seq (Grp 2 (Plus True is_alpha)) (Seq (Star True is_space) (Seq (Chr
            (lit CHR ''='')) (Seq (Star True is_space) (Grp 3 (Alt (Grp 4 (Seq (Chr (lit (CHR
            0x22))) (Seq (Grp 5 (Star True not_quote)) (Chr (lit (CHR 0x22)))))) (Seq (Opt (lit
            (CHR 0x22))) (Seq (Grp 6 (Plus True dot)) (Opt (lit (CHR 0x22)))))))))))))
            (b, s, []))"
    | (plain) "(b', s', k') \<in> set (rx (Seq (Grp 7 (Plus True dot)) Eol) (b, s, []))"
    unfolding splitValues_unfold by (auto simp: rx.simps(4))
  then show ?thesis
  proof cases
    case named
    from rx_named_results[OF this] obtain s4 n u3 u1 where s4: "suffix s4 s"
      and k: "(\<exists>v. v \<noteq> [] \<and> k' = [(1, u1), (3, u3), (6, v), (2, n)]) \<or>
              (\<exists>v u4. k' = [(1, u1), (3, u3), (4, u4), (5, v), (2, n)] \<and>
                       (v = [] \<longrightarrow> prefix [CHR 0x22, CHR 0x22] s4))"
      by blast
    have "\<not> prefix [CHR 0x22, CHR 0x22] s4"
    proof
      assume "prefix [CHR 0x22, CHR 0x22] s4"
      then have "sublist [CHR 0x22, CHR 0x22] s4" by (rule prefix_imp_sublist)
      moreover from s4 have "sublist s4 s" by (rule suffix_imp_sublist)
      ultimately have "sublist [CHR 0x22, CHR 0x22] s" by (rule sublist_order.order_trans)
      with nq show False by simp
    qed
    with k show ?thesis by auto
  next
    case plain
    from rx_plain_results[OF this] show ?thesis by auto
  qed
qed

lemma rx_splitValues_last:
  assumes "dot c"
  shows "rx splitValues (b, [c], []) \<noteq> []"
proof -
  have "rx (Seq (Grp 7 (Plus True dot)) Eol) (b, [c], []) = [(False, [], [(7, [c])])]"
    using assms by (simp add: rx.simps Plus_def)
  then show ?thesis by (simp add: splitValues_def rx.simps(4))
qed

lemma search_Some_rx:
  "search r i b s = Some m \<Longrightarrow>
     \<exists>b0 s0 bb t. suffix s0 s \<and> rx r (b0, s0, []) = (bb, rest_of m, caps_of m) # t"
proof (induction s arbitrary: i b)
  case Nil
  obtain st t where r: "rx r (b, [], []) = st # t"
    using Nil by (subst (asm) search.simps) (auto split: list.splits)
  obtain bb s' k where st: "st = (bb, s', k)" by (cases st)
  from Nil r st have "rest_of m = s'" "caps_of m = k"
    by (subst (asm) search.simps, auto)+
  with r st have "suffix [] [] \<and> rx r (b, [], []) = (bb, rest_of m, caps_of m) # t" by simp
  then show ?case by blast
next
  case (Cons x xs)
  show ?case
  proof (cases "rx r (b, x # xs, [])")
    case Nil
    with Cons.prems have "search r (Suc i) False xs = Some m"
      by (subst (asm) search.simps) simp
    from Cons.IH[OF this] show ?thesis by (auto simp: suffix_Cons)
  next
    case (Cons st t)
    obtain bb s' k where st: "st = (bb, s', k)" by (cases st)
    with Cons Cons.prems have "rest_of m = s'" "caps_of m = k"
      by (subst (asm) search.simps, auto)+
    with Cons st have "suffix (x # xs) (x # xs) \<and> rx r (b, x # xs, []) = (bb, rest_of m, caps_of m) # t"
      by simp
    then show ?thesis by blast
  qed
qed

lemma search_None_rx:
  "search r i b s = None \<Longrightarrow> suffix s0 s \<Longrightarrow> \<exists>b0. rx r (b0, s0, []) = []"
proof (induction s arbitrary: i b)
  case Nil
  then have "rx r (b, [], []) = []" and "s0 = []"
    by (subst (asm) search.simps, auto split: list.splits)+
  then show ?case by blast
next
  case (Cons x xs)
  from Cons.prems(1) have here: "rx r (b, x # xs, []) = []"
    and rest: "search r (Suc i) False xs = None"
    by (subst (asm) search.simps, auto split: list.splits)+
  from Cons.prems(2) consider "s0 = x # xs" | "suffix s0 xs" by (auto simp: suffix_Cons)
  then show ?case
  proof cases
    case 1
    with here show ?thesis by blast
  next
    case 2
    from Cons.IH[OF rest this] show ?thesis .
  qed
qed

lemma classify_token:
  assumes ne: "t \<noteq> []" and nsp: "\<not> is_space (last t)" and nq: "\<not> sublist [CHR 0x22, CHR 0x22] t"
  shows "\<exists>n v. classify t i = [\<lparr>name = n, value = v, index = i\<rparr>]"
proof -
  from nsp have d: "dot (last t)" by (auto simp: is_space_def dot_def)
  have "suffix [last t] t" using ne by (metis append_butlast_last_id suffixI)
  have "exec splitValues t \<noteq> None"
  proof
    assume "exec splitValues t = None"
    then have "search splitValues 0 True t = None" by (simp add: exec_def)
    from search_None_rx[OF this \<open>suffix [last t] t\<close>] rx_splitValues_last[OF d]
    show False by blast
  qed
  then obtain m where m: "exec splitValues t = Some m" by auto
  then have "search splitValues 0 True t = Some m" by (simp add: exec_def)
  from search_Some_rx[OF this] obtain b0 s0 bb tl0
    where suf: "suffix s0 t" and r: "rx splitValues (b0, s0, []) = (bb, rest_of m, caps_of m) # tl0"
    by blast
  have "\<not> sublist [CHR 0x22, CHR 0x22] s0"
  proof
    assume "sublist [CHR 0x22, CHR 0x22] s0"
    moreover from suf have "sublist s0 t" by (rule suffix_imp_sublist)
    ultimately have "sublist [CHR 0x22, CHR 0x22] t" by (rule sublist_order.order_trans)
    with nq show False by simp
  qed
  moreover from r have "(bb, rest_of m, caps_of m) \<in> set (rx splitValues (b0, s0, []))" by simp
  ultimately have "(\<exists>v. v \<noteq> [] \<and> map_of (caps_of m) 7 = Some v) \<or>
         (map_of (caps_of m) 7 = None \<and> (\<exists>v. v \<noteq> [] \<and> map_of (caps_of m) 6 = Some v)) \<or>
         (map_of (caps_of m) 7 = None \<and> map_of (caps_of m) 6 = None \<and>
            (\<exists>v. v \<noteq> [] \<and> map_of (caps_of m) 5 = Some v))"
    by (rule rx_splitValues_results)
  then show ?thesis
    using m by (auto simp: classify_def grp_def truthy_def Let_def)
qed

lemma classify_empty: "classify [] i = []"
  by code_simp

subsection \<open>Named tokens\<close>







subsection \<open>Tokens without a name\<close>









section \<open>Properties of the argument parser: the Params\<close>

lemma trim_last: "trim p \<noteq> [] \<Longrightarrow> \<not> is_space (last (trim p))"
proof -
  assume ne: "trim p \<noteq> []"
  let ?d = "dropWhile is_space (rev (dropWhile is_space p))"
  from ne have d: "?d \<noteq> []" by (simp add: trim_def)
  then have "\<not> is_space (hd ?d)" by (rule hd_dropWhile)
  moreover have "last (trim p) = hd ?d" using d by (simp add: trim_def last_rev)
  ultimately show ?thesis by simp
qed


lemma sublist_trim: "sublist (trim p) p"
proof -
  let ?d = "dropWhile is_space p"
  have "suffix (dropWhile is_space (rev ?d)) (rev ?d)" by (rule suffix_dropWhile)
  then have "prefix (trim p) ?d"
    by (simp add: trim_def suffix_to_prefix)
  then have "sublist (trim p) ?d" by (rule prefix_imp_sublist)
  moreover have "sublist ?d p" by (rule suffix_imp_sublist[OF suffix_dropWhile])
  ultimately show ?thesis by (rule sublist_order.order_trans)
qed

lemma sublist_Cons_cases: "sublist w (x # xs) = (prefix w (x # xs) \<or> sublist w xs)"
  by (rule sublist_Cons_right)

lemma no_empty_quotes_skip:
  "CHR 0x22 \<notin> set u \<Longrightarrow> sublist [CHR 0x22, CHR 0x22] (u @ s) = sublist [CHR 0x22, CHR 0x22] s"
  by (induction u) (auto simp: sublist_Cons_cases)

lemma no_empty_quotes_plain: "CHR 0x22 \<notin> set p \<Longrightarrow> \<not> sublist [CHR 0x22, CHR 0x22] p"
  using no_empty_quotes_skip[of p "[]"] by simp

lemma no_empty_quotes_quoted:
  assumes "ends_quoted p"
  shows "\<not> sublist [CHR 0x22, CHR 0x22] p"
proof -
  from ends_quotedD[OF assms] obtain a v where p: "p = a @ CHR 0x22 # v @ [CHR 0x22]"
    and a: "CHR 0x22 \<notin> set a" and v: "v \<noteq> []" "CHR 0x22 \<notin> set v" by blast
  from v obtain y v' where vv: "v = y # v'" and y: "y \<noteq> CHR 0x22" by (cases v) auto
  have "sublist [CHR 0x22, CHR 0x22] (v @ [CHR 0x22]) = sublist [CHR 0x22, CHR 0x22] [CHR 0x22]"
    by (rule no_empty_quotes_skip[OF v(2)])
  then have "\<not> sublist [CHR 0x22, CHR 0x22] (v @ [CHR 0x22])"
    by (simp add: sublist_Cons_cases)
  then have "\<not> sublist [CHR 0x22, CHR 0x22] (CHR 0x22 # v @ [CHR 0x22])"
    using y by (simp add: sublist_Cons_cases[of _ "CHR 0x22"] vv)
  then show ?thesis
    unfolding p using no_empty_quotes_skip[OF a, of "CHR 0x22 # v @ [CHR 0x22]"] by simp
qed

lemma plain_quoting_elem:
  "plain_quoting ps \<Longrightarrow> p \<in> set ps \<Longrightarrow> CHR 0x22 \<notin> set p \<or> ends_quoted p"
  by (induction ps) auto

lemma classify_trimmed:
  assumes "\<not> sublist [CHR 0x22, CHR 0x22] p"
  shows "(trim p = [] \<longrightarrow> classify (trim p) i = []) \<and>
         (trim p \<noteq> [] \<longrightarrow> (\<exists>n v. classify (trim p) i = [\<lparr>name = n, value = v, index = i\<rparr>]))"
proof (intro conjI impI)
  assume "trim p = []"
  then show "classify (trim p) i = []" by (simp add: classify_empty)
next
  assume ne: "trim p \<noteq> []"
  have "\<not> sublist [CHR 0x22, CHR 0x22] (trim p)"
  proof
    assume "sublist [CHR 0x22, CHR 0x22] (trim p)"
    then have "sublist [CHR 0x22, CHR 0x22] p"
      using sublist_trim[of p] by (rule sublist_order.order_trans)
    with assms show False by simp
  qed
  from classify_token[OF ne trim_last[OF ne] this]
  show "\<exists>n v. classify (trim p) i = [\<lparr>name = n, value = v, index = i\<rparr>]" .
qed

lemma classify_at_most_one:
  "length (classify t i) \<le> 1 \<and> (\<forall>p \<in> set (classify t i). index p = i)"
  by (cases "exec splitValues t") (auto simp: classify_def Let_def)

lemma indexes_of_classified:
  assumes "\<And>t i. (t, i) \<in> set xs \<Longrightarrow>
             (t = [] \<longrightarrow> classify t i = []) \<and>
             (t \<noteq> [] \<longrightarrow> (\<exists>n v. classify t i = [\<lparr>name = n, value = v, index = i\<rparr>]))"
  shows "map index (concat (map (\<lambda>(t, i). classify t i) xs)) = map snd (filter (\<lambda>(t, i). t \<noteq> []) xs)"
  using assms
proof (induction xs)
  case Nil
  show ?case by simp
next
  case (Cons a xs)
  obtain t i where a: "a = (t, i)" by (cases a)
  from Cons.prems[of t i] a
  have c: "(t = [] \<longrightarrow> classify t i = []) \<and>
           (t \<noteq> [] \<longrightarrow> (\<exists>n v. classify t i = [\<lparr>name = n, value = v, index = i\<rparr>]))" by simp
  have ih: "map index (concat (map (\<lambda>(t, i). classify t i) xs)) = map snd (filter (\<lambda>(t, i). t \<noteq> []) xs)"
  proof (rule Cons.IH)
    fix t i assume "(t, i) \<in> set xs"
    then have "(t, i) \<in> set (a # xs)" by simp
    then show "(t = [] \<longrightarrow> classify t i = []) \<and>
           (t \<noteq> [] \<longrightarrow> (\<exists>n v. classify t i = [\<lparr>name = n, value = v, index = i\<rparr>]))"
      by (rule Cons.prems)
  qed
  show ?case
  proof (cases "t = []")
    case True
    with c a ih show ?thesis by simp
  next
    case False
    with c obtain n v where "classify t i = [\<lparr>name = n, value = v, index = i\<rparr>]" by blast
    with False a ih show ?thesis by simp
  qed
qed






text \<open>
  C7, as the claim states it, fails. The string \<^verbatim>\<open>a"b"c\<close> has no comma, so it is a single
  comma-delimited token and no comma of it lies inside quotes; \<^verbatim>\<open>parseArguments\<close> returns
  two Params, with the indexes 0 and 1: the first pattern of the tokenizer ends a token
  at a closing quote. In \<^verbatim>\<open>a,,b\<close> the token \<^verbatim>\<open>b\<close> is the third piece of the comma split and
  its Param has the index 1: an empty piece is no token. The single token \<^verbatim>\<open>a=""\<close> yields no
  Param, although the classification pattern matches it. In \<^verbatim>\<open>"x",b,c="y"\<close> no comma lies
  between an opening and its closing quote, and the three comma-delimited tokens yield
  two Params: a quoted string at the beginning of a token does not end the token, which
  goes on to the next double quote, over the commas. In \<^verbatim>\<open>a="",b="x"\<close> the same happens after
  an empty quoted string, and the only Param has the index 1.
\<close>

theorem parseArguments_counterexample:
  "split_commas ''a\"b\"c'' = [''a\"b\"c''] \<and>
   parseArguments ''a\"b\"c'' =
     [\<lparr>name = [], value = ''a\"b\"'', index = 0\<rparr>, \<lparr>name = [], value = ''c'', index = 1\<rparr>] \<and>
   split_commas ''a,,b'' = [''a'', [], ''b''] \<and>
   parseArguments ''a,,b'' =
     [\<lparr>name = [], value = ''a'', index = 0\<rparr>, \<lparr>name = [], value = ''b'', index = 1\<rparr>] \<and>
   split_commas ''a=\"\"'' = [''a=\"\"''] \<and> exec splitValues ''a=\"\"'' \<noteq> None \<and>
   parseArguments ''a=\"\"'' = [] \<and>
   split_commas ''\"x\",b,c=\"y\"'' = [''\"x\"'', ''b'', ''c=\"y\"''] \<and>
   argList ''\"x\",b,c=\"y\"'' = [''\"x\",b,c=\"'', ''y\"''] \<and>
   parseArguments ''\"x\",b,c=\"y\"'' =
     [\<lparr>name = [], value = ''x\",b,c='', index = 0\<rparr>, \<lparr>name = [], value = ''y\"'', index = 1\<rparr>] \<and>
   split_commas ''a=\"\",b=\"x\"'' = [''a=\"\"'', ''b=\"x\"''] \<and>
   parseArguments ''a=\"\",b=\"x\"'' = [\<lparr>name = [], value = ''x\"'', index = 1\<rparr>]"
  by code_simp

text \<open>
  C7, amended. For every argument string the tokens are these: a token begins at a
  character that is not a comma; when its first character is followed, before any comma,
  by a quoted string (a double quote, one or more characters other than double quotes, a
  double quote), the token ends with the closing quote of the first such string,
  whatever stands between the quotes; otherwise it ends before the next comma or with
  the string; the tokens are trimmed. \<^verbatim>\<open>parseArguments\<close> yields, token by token and in their
  order, at most one Param for a token, and its index is the zero-based position of the
  token in the sequence of the tokens; it yields none for a blank token and exactly one
  for a token that is not blank and in which no two double quotes are adjacent. When the
  comma-delimited pieces have plain quoting (a piece has no double quote, or it ends with
  its only quoted string, which is not empty and which, when it is the whole piece, is
  followed by no double quote in the later pieces), the tokens are the non-empty
  comma-delimited pieces, trimmed, in their order, so that every piece that is not blank
  has exactly one Param, with the position of the piece among the non-empty pieces as
  its index. A token in which the classification pattern finds no match yields no Param;
  the empty string yields the empty sequence.
\<close>

theorem parseArguments_tokens:
  "argList raw = map trim (tokens raw) \<and>
   parseArguments raw =
     concat (map (\<lambda>(t, i). classify t i) (zip (argList raw) [0 ..< length (argList raw)])) \<and>
   (\<forall>t i. length (classify t i) \<le> 1 \<and> (\<forall>p \<in> set (classify t i). index p = i)) \<and>
   (\<forall>i < length (argList raw).
      (argList raw ! i = [] \<longrightarrow> classify (argList raw ! i) i = []) \<and>
      (argList raw ! i \<noteq> [] \<and> \<not> sublist [CHR 0x22, CHR 0x22] (argList raw ! i) \<longrightarrow>
         (\<exists>n v. classify (argList raw ! i) i = [\<lparr>name = n, value = v, index = i\<rparr>]))) \<and>
   (plain_quoting (split_commas raw) \<longrightarrow>
      argList raw = map trim (filter (\<lambda>t. t \<noteq> []) (split_commas raw)) \<and>
      (\<forall>i < length (argList raw).
         argList raw ! i \<noteq> [] \<longrightarrow>
           (\<exists>n v. classify (argList raw ! i) i = [\<lparr>name = n, value = v, index = i\<rparr>])) \<and>
      map index (parseArguments raw) =
        map snd (filter (\<lambda>(t, i). t \<noteq> []) (zip (argList raw) [0 ..< length (argList raw)]))) \<and>
   (\<forall>t i. exec splitValues t = None \<longrightarrow> classify t i = []) \<and>
   parseArguments [] = []"
proof (intro conjI allI impI)
  show "argList raw = map trim (tokens raw)" by (rule argList_tokens)
  show "parseArguments raw =
     concat (map (\<lambda>(t, i). classify t i) (zip (argList raw) [0 ..< length (argList raw)]))"
    by (simp add: parseArguments_def)
  show "length (classify t i) \<le> 1" for t i
    using classify_at_most_one[of t i] by simp
  show "\<forall>p \<in> set (classify t i). index p = i" for t i
    using classify_at_most_one[of t i] by simp
  show "classify t i = []" if "exec splitValues t = None" for t i
    using that by (simp add: classify_def)
  show "parseArguments [] = []" by code_simp
  {
    fix i assume i: "i < length (argList raw)"
    show "classify (argList raw ! i) i = []" if "argList raw ! i = []"
      using that by (simp add: classify_empty)
    show "\<exists>n v. classify (argList raw ! i) i = [\<lparr>name = n, value = v, index = i\<rparr>]"
      if "argList raw ! i \<noteq> [] \<and> \<not> sublist [CHR 0x22, CHR 0x22] (argList raw ! i)"
    proof -
      from i have "argList raw ! i = trim (tokens raw ! i)" by (simp add: argList_tokens)
      with that have "\<not> is_space (last (argList raw ! i))" by (simp add: trim_last)
      with that show ?thesis by (intro classify_token) simp_all
    qed
  }
  {
    assume pq: "plain_quoting (split_commas raw)"
    show a: "argList raw = map trim (filter (\<lambda>t. t \<noteq> []) (split_commas raw))"
      using pq by (rule argList_plain)
    have tok: "(t = [] \<longrightarrow> classify t i = []) \<and>
           (t \<noteq> [] \<longrightarrow> (\<exists>n v. classify t i = [\<lparr>name = n, value = v, index = i\<rparr>]))"
      if "t \<in> set (argList raw)" for t i
    proof -
      from that obtain p where p: "p \<in> set (split_commas raw)" and t: "t = trim p"
        unfolding a by auto
      from plain_quoting_elem[OF pq p] have "\<not> sublist [CHR 0x22, CHR 0x22] p"
        by (auto dest: no_empty_quotes_plain no_empty_quotes_quoted)
      from classify_trimmed[OF this, of i] t show ?thesis by simp
    qed
    show "\<exists>n v. classify (argList raw ! i) i = [\<lparr>name = n, value = v, index = i\<rparr>]"
      if "i < length (argList raw)" "argList raw ! i \<noteq> []" for i
    proof -
      from that(1) have "argList raw ! i \<in> set (argList raw)" by simp
      from tok[OF this, of i] that(2) show ?thesis by blast
    qed
    show "map index (parseArguments raw) =
           map snd (filter (\<lambda>(t, i). t \<noteq> []) (zip (argList raw) [0 ..< length (argList raw)]))"
      unfolding parseArguments_def
    proof (rule indexes_of_classified)
      fix t i assume "(t, i) \<in> set (zip (argList raw) [0 ..< length (argList raw)])"
      then have "t \<in> set (argList raw)" by (rule set_zip_leftD)
      from tok[OF this, of i]
      show "(t = [] \<longrightarrow> classify t i = []) \<and>
           (t \<noteq> [] \<longrightarrow> (\<exists>n v. classify t i = [\<lparr>name = n, value = v, index = i\<rparr>]))" .
    qed
  }
qed

theorem parseArguments_tokens_witness:
  "plain_quoting (split_commas ''a=\"x\",b=\"y z\"'') \<and>
   argList ''a=\"x\",b=\"y z\"'' = [''a=\"x\"'', ''b=\"y z\"''] \<and>
   parseArguments ''a=\"x\",b=\"y z\"'' =
     [\<lparr>name = ''a'', value = ''x'', index = 0\<rparr>, \<lparr>name = ''b'', value = ''y z'', index = 1\<rparr>] \<and>
   map index (parseArguments ''a=\"x\",b=\"y z\"'') = [0, 1] \<and>
   plain_quoting (split_commas ''x=1,, ,\"y\"'') \<and>
   argList ''x=1,, ,\"y\"'' = [''x=1'', [], ''\"y\"''] \<and>
   parseArguments ''x=1,, ,\"y\"'' =
     [\<lparr>name = ''x'', value = ''1'', index = 0\<rparr>, \<lparr>name = [], value = ''y'', index = 2\<rparr>] \<and>
   \<not> plain_quoting (split_commas ''a = \"x, y\" , z'') \<and>
   argList ''a = \"x, y\" , z'' = [''a = \"x, y\"'', [], ''z''] \<and>
   parseArguments ''a = \"x, y\" , z'' =
     [\<lparr>name = ''a'', value = ''x, y'', index = 0\<rparr>, \<lparr>name = [], value = ''z'', index = 2\<rparr>]"
proof -
  have h1: "plain_quoting (split_commas ''a=\"x\",b=\"y z\"'')"
    and h2: "plain_quoting (split_commas ''x=1,, ,\"y\"'')"
    and h3: "\<not> plain_quoting (split_commas ''a = \"x, y\" , z'')"
    by code_simp+
  have s1: "map trim (filter (\<lambda>t. t \<noteq> []) (split_commas ''a=\"x\",b=\"y z\"'')) = [''a=\"x\"'', ''b=\"y z\"'']"
    and s2: "map trim (filter (\<lambda>t. t \<noteq> []) (split_commas ''x=1,, ,\"y\"'')) = [''x=1'', [], ''\"y\"'']"
    and s3: "map trim (tokens ''a = \"x, y\" , z'') = [''a = \"x, y\"'', [], ''z'']"
    by code_simp+
  have c: "classify ''a=\"x\"'' 0 = [\<lparr>name = ''a'', value = ''x'', index = 0\<rparr>]"
    "classify ''b=\"y z\"'' (Suc 0) = [\<lparr>name = ''b'', value = ''y z'', index = 1\<rparr>]"
    "classify ''x=1'' 0 = [\<lparr>name = ''x'', value = ''1'', index = 0\<rparr>]"
    "classify [] (Suc 0) = []"
    "classify ''\"y\"'' (Suc (Suc 0)) = [\<lparr>name = [], value = ''y'', index = 2\<rparr>]"
    "classify ''a = \"x, y\"'' 0 = [\<lparr>name = ''a'', value = ''x, y'', index = 0\<rparr>]"
    "classify ''z'' (Suc (Suc 0)) = [\<lparr>name = [], value = ''z'', index = 2\<rparr>]"
    by code_simp+
  note t1 = parseArguments_tokens[of "''a=\"x\",b=\"y z\"''"]
  note t2 = parseArguments_tokens[of "''x=1,, ,\"y\"''"]
  note t3 = parseArguments_tokens[of "''a = \"x, y\" , z''"]
  have a1: "argList ''a=\"x\",b=\"y z\"'' = [''a=\"x\"'', ''b=\"y z\"'']"
    unfolding s1[symmetric] using t1 h1 by blast
  have a2: "argList ''x=1,, ,\"y\"'' = [''x=1'', [], ''\"y\"'']"
    unfolding s2[symmetric] using t2 h2 by blast
  have a3: "argList ''a = \"x, y\" , z'' = [''a = \"x, y\"'', [], ''z'']"
    unfolding s3[symmetric] using t3 by blast
  have p1: "parseArguments ''a=\"x\",b=\"y z\"'' =
     [\<lparr>name = ''a'', value = ''x'', index = 0\<rparr>, \<lparr>name = ''b'', value = ''y z'', index = 1\<rparr>]"
    using t1[THEN conjunct2, THEN conjunct1] unfolding a1 by (simp add: upt_rec c)
  have p2: "parseArguments ''x=1,, ,\"y\"'' =
     [\<lparr>name = ''x'', value = ''1'', index = 0\<rparr>, \<lparr>name = [], value = ''y'', index = 2\<rparr>]"
    using t2[THEN conjunct2, THEN conjunct1] unfolding a2 by (simp add: upt_rec c)
  have p3: "parseArguments ''a = \"x, y\" , z'' =
     [\<lparr>name = ''a'', value = ''x, y'', index = 0\<rparr>, \<lparr>name = [], value = ''z'', index = 2\<rparr>]"
    using t3[THEN conjunct2, THEN conjunct1] unfolding a3 by (simp add: upt_rec c)
  from h1 h2 h3 a1 a2 a3 p1 p2 p3 show ?thesis by simp
qed

section \<open>Properties of the alert extractor\<close>

lemma rx_notifyRegex:
  "rx notifyRegex (b, s, k) = (if prefix marker s then [(False, drop 3 s, k)] else [])"
proof (cases s)
  case Nil
  then show ?thesis by (simp add: rx.simps notifyRegex_def marker_def)
next
  case s1: (Cons x1 t1)
  show ?thesis
  proof (cases t1)
    case Nil
    with s1 show ?thesis by (simp add: rx.simps notifyRegex_def marker_def lit_def)
  next
    case s2: (Cons x2 t2)
    show ?thesis
    proof (cases t2)
      case Nil
      with s1 s2 show ?thesis by (simp add: rx.simps notifyRegex_def marker_def lit_def)
    next
      case (Cons x3 t3)
      with s1 s2 show ?thesis by (auto simp: rx.simps notifyRegex_def marker_def lit_def)
    qed
  qed
qed

lemma search_notifyRegex_None:
  "(search notifyRegex i b s = None) = (\<not> sublist marker s)"
proof (induction s arbitrary: i b)
  case Nil
  show ?case by (simp add: search.simps rx_notifyRegex marker_def)
next
  case (Cons x xs)
  show ?case
  proof (cases "prefix marker (x # xs)")
    case True
    then show ?thesis by (simp add: search.simps[of _ _ _ "x # xs"] rx_notifyRegex sublist_Cons_cases)
  next
    case False
    then show ?thesis using Cons.IH[of "Suc i" False]
      by (simp add: search.simps[of _ _ _ "x # xs"] rx_notifyRegex sublist_Cons_cases)
  qed
qed

lemma search_notifyRegex_Some:
  "search notifyRegex i b s = Some m \<Longrightarrow>
     i \<le> index_of m \<and> take (index_of m - i) s @ rest_of m = delete_first marker s"
proof (induction s arbitrary: i b)
  case Nil
  then show ?case by (simp add: search.simps rx_notifyRegex marker_def)
next
  case (Cons x xs)
  show ?case
  proof (cases "prefix marker (x # xs)")
    case True
    with Cons.prems show ?thesis
      by (auto simp: search.simps[of _ _ _ "x # xs"] rx_notifyRegex marker_def numeral_2_eq_2)
  next
    case False
    with Cons.prems have "search notifyRegex (Suc i) False xs = Some m"
      by (simp add: search.simps[of _ _ _ "x # xs"] rx_notifyRegex)
    from Cons.IH[OF this]
    have le: "Suc i \<le> index_of m"
      and eq: "take (index_of m - Suc i) xs @ rest_of m = delete_first marker xs" by simp_all
    from le have "index_of m - i = Suc (index_of m - Suc i)" by arith
    with le eq False show ?thesis by simp
  qed
qed

lemma delete_first_absent: "\<not> sublist w s \<Longrightarrow> delete_first w s = s"
  by (induction s) (auto simp: sublist_Cons_cases)

lemma replace_first_notifyRegex: "replace_first notifyRegex [] s = delete_first marker s"
proof (cases "exec notifyRegex s")
  case None
  then have "\<not> sublist marker s" by (simp add: exec_def search_notifyRegex_None)
  with None show ?thesis by (simp add: replace_first_def delete_first_absent)
next
  case (Some m)
  from search_notifyRegex_Some[OF Some[unfolded exec_def]] Some show ?thesis
    by (simp add: replace_first_def)
qed

lemma rx_spaces_match:
  "is_space x \<Longrightarrow> \<exists>t. rx spaces (b, x # xs, k) = (False, dropWhile is_space xs, k) # t"
  using star_greedy_hd[of is_space xs] by (auto simp: rx.simps spaces_def Plus_def)

lemma rx_spaces_fail: "\<not> is_space x \<Longrightarrow> rx spaces (b, x # xs, k) = []"
  by (simp add: rx.simps spaces_def Plus_def)

lemma rx_spaces_Nil: "rx spaces (b, [], k) = []"
  by (simp add: rx.simps spaces_def Plus_def)

lemma replace_spaces: "replace_from spaces '' '' b s = collapse s"
proof (induction s arbitrary: b rule: collapse.induct)
  case 1
  show ?case by (simp add: replace_from.simps rx_spaces_Nil)
next
  case (2 x xs)
  show ?case
  proof (cases "is_space x")
    case True
    from rx_spaces_match[OF True, of b xs "[]"] obtain t
      where t: "rx spaces (b, x # xs, []) = (False, dropWhile is_space xs, []) # t" by blast
    have "length (dropWhile is_space xs) < length (x # xs)"
      by (simp add: length_dropWhile_le less_Suc_eq_le)
    with t True "2.IH"(1)[OF True, of False] show ?thesis
      by (simp add: replace_from.simps[of _ _ _ "x # xs"])
  next
    case False
    with "2.IH"(2)[OF False, of False] show ?thesis
      by (simp add: replace_from.simps[of _ _ _ "x # xs"] rx_spaces_fail)
  qed
qed

lemma toSend_spec:
  "toSend msg = trim (collapse (delete_first marker (replace_all alertBlock [] msg)))"
  by (simp add: toSend_def replace_first_notifyRegex replace_all_def[of spaces] replace_spaces)

lemma handleAlerts_unfold:
  "handleAlerts msg =
     (if sublist marker msg
      then (if trim (collapse (delete_first marker (replace_all alertBlock [] msg))) = [] then None
            else Some (trim (collapse (delete_first marker (replace_all alertBlock [] msg)))))
      else None)"
  using search_notifyRegex_None[of 0 True msg]
  by (cases "exec notifyRegex msg") (auto simp: handleAlerts_def exec_def toSend_spec)

text \<open>
  C8 does not hold of the code. The comment in \<^verbatim>\<open>handleAlerts\<close> says that all the command blocks
  are removed from the message, and the command blocks of a message are what
  \<^verbatim>\<open>commandBlocks\<close> splits out of it. The pattern of \<^verbatim>\<open>handleAlerts\<close> is another one: it admits
  only letters in the name and anything between the parentheses. For
  \<^verbatim>\<open>Price alert {!} okex3(BTCUSD){buy(1)}\<close> the command block stays in the text and is forwarded
  to the notifier; for \<^verbatim>\<open>{!} see(a) b(c){d}\<close> the text \<^verbatim>\<open>see(a)\<close>, which is outside the command
  block \<^verbatim>\<open>b(c){d}\<close>, is removed with it, nothing remains and the notifier is not called.
\<close>

theorem alert_keeps_command_block:
  "commandBlocks ''Price alert {!} okex3(BTCUSD){buy(1)}'' = [(''okex3'', ''BTCUSD'', ''buy(1)'')] \<and>
   handleAlerts ''Price alert {!} okex3(BTCUSD){buy(1)}'' = Some ''Price alert okex3(BTCUSD){buy(1)}'' \<and>
   commandBlocks ''{!} see(a) b(c){d}'' = [(''b'', ''c'', ''d'')] \<and>
   handleAlerts ''{!} see(a) b(c){d}'' = None"
  by code_simp

lemma marker_chars: "marker = [CHR ''{'', CHR ''!'', CHR ''}'']"
  by (simp add: marker_def)

lemma marker_not_space: "\<not> is_space CHR ''{''" "\<not> is_space CHR ''!''" "\<not> is_space CHR ''}''"
  by (simp_all add: is_space_def code_def)

lemma delete_first_keeps:
  assumes "sublist marker r"
  shows "sublist marker (delete_first marker (u @ marker @ r))"
proof (induction u)
  case Nil
  then show ?case using assms by (simp add: marker_chars)
next
  case (Cons y u)
  show ?case
  proof (cases "prefix marker ((y # u) @ marker @ r)")
    case True
    have "drop (length marker) (((y # u) @ marker) @ r) =
            drop (length marker) ((y # u) @ marker) @ drop (length marker - length ((y # u) @ marker)) r"
      by (rule drop_append)
    then have "drop (length marker) ((y # u) @ marker @ r) = drop (length marker) ((y # u) @ marker) @ r"
      by simp
    then have "sublist marker (drop (length marker) ((y # u) @ marker @ r))"
      using assms by (simp only: sublist_append) blast
    with True show ?thesis by simp
  next
    case False
    with Cons.IH show ?thesis by (simp add: sublist_Cons_cases)
  qed
qed

lemma delete_first_first:
  assumes "\<not> sublist marker (u @ ''{!'')"
  shows "delete_first marker (u @ marker @ r) = u @ r"
  using assms
proof (induction u)
  case Nil
  show ?case by (simp add: marker_chars)
next
  case (Cons y u)
  from Cons.prems have np: "\<not> prefix marker ((y # u) @ ''{!'')" and ns: "\<not> sublist marker (u @ ''{!'')"
    by (simp_all add: sublist_Cons_cases)
  have "\<not> prefix marker ((y # u) @ marker @ r)"
  proof (cases u)
    case Nil
    then show ?thesis by (simp add: marker_chars)
  next
    case u1: (Cons z u')
    show ?thesis
    proof (cases u')
      case Nil
      with u1 show ?thesis by (simp add: marker_chars)
    next
      case (Cons z' u'')
      with u1 np show ?thesis by (simp add: marker_chars)
    qed
  qed
  with Cons.IH[OF ns] show ?case by simp
qed

lemma dropWhile_keeps:
  "sublist marker s \<Longrightarrow> sublist marker (dropWhile is_space s)"
proof (induction s)
  case Nil
  then show ?case by simp
next
  case (Cons x xs)
  show ?case
  proof (cases "is_space x")
    case True
    then have "\<not> prefix marker (x # xs)"
      using marker_not_space(1) by (auto simp: marker_chars)
    with Cons True show ?thesis by (simp add: sublist_Cons_cases)
  next
    case False
    with Cons.prems show ?thesis by simp
  qed
qed

lemma collapse_keeps: "sublist marker s \<Longrightarrow> sublist marker (collapse s)"
proof (induction s rule: collapse.induct)
  case 1
  then show ?case by simp
next
  case (2 x xs)
  show ?case
  proof (cases "is_space x")
    case True
    then have "\<not> prefix marker (x # xs)"
      using marker_not_space(1) by (auto simp: marker_chars)
    with "2.prems" have "sublist marker xs" by (simp add: sublist_Cons_cases)
    then have "sublist marker (collapse (dropWhile is_space xs))"
      using "2.IH"(1)[OF True] dropWhile_keeps by blast
    with True show ?thesis by (simp add: sublist_Cons_cases)
  next
    case False
    show ?thesis
    proof (cases "prefix marker (x # xs)")
      case True
      then obtain t where "x # xs = CHR ''{'' # CHR ''!'' # CHR ''}'' # t"
        by (auto simp: marker_chars prefix_def)
      then have "collapse (x # xs) = CHR ''{'' # CHR ''!'' # CHR ''}'' # collapse t"
        using marker_not_space by simp
      then show ?thesis by (simp add: marker_chars sublist_Cons_cases)
    next
      case np: False
      with "2.prems" have "sublist marker xs" by (simp add: sublist_Cons_cases)
      with "2.IH"(2)[OF False] False show ?thesis by (simp add: sublist_Cons_cases)
    qed
  qed
qed

lemma sublist_rev_marker: "sublist (rev marker) (rev s) = sublist marker s"
  by (simp add: sublist_rev)

lemma dropWhile_keeps_rev:
  "sublist (rev marker) s \<Longrightarrow> sublist (rev marker) (dropWhile is_space s)"
proof (induction s)
  case Nil
  then show ?case by simp
next
  case (Cons x xs)
  show ?case
  proof (cases "is_space x")
    case True
    then have "\<not> prefix (rev marker) (x # xs)"
      using marker_not_space(3) by (auto simp: marker_chars)
    with Cons True show ?thesis by (simp add: sublist_Cons_cases)
  next
    case False
    with Cons.prems show ?thesis by simp
  qed
qed

lemma trim_keeps: "sublist marker s \<Longrightarrow> sublist marker (trim s)"
proof -
  assume "sublist marker s"
  then have "sublist marker (dropWhile is_space s)" by (rule dropWhile_keeps)
  then have "sublist (rev marker) (rev (dropWhile is_space s))" by (simp add: sublist_rev)
  then have "sublist (rev marker) (dropWhile is_space (rev (dropWhile is_space s)))"
    by (rule dropWhile_keeps_rev)
  then have "sublist (rev (rev marker)) (rev (dropWhile is_space (rev (dropWhile is_space s))))"
    by (simp only: sublist_rev)
  then show ?thesis by (simp add: trim_def)
qed

text \<open>
  C9, as the claim states it, fails. The message \<^verbatim>\<open>{!}a(){!}\<close> contains the marker twice
  and the notifier is not called: the block pattern removes \<^verbatim>\<open>a(){!}\<close>, the second marker
  with it. In \<^verbatim>\<open>{!} buy(1){ {!} }\<close> the second marker ends a block and is removed with it,
  and the text forwarded is \<^verbatim>\<open>}\<close>.
\<close>

theorem later_markers_counterexample:
  "sublist marker (marker @ ''a()'' @ marker) \<and>
   handleAlerts (marker @ ''a()'' @ marker) = None \<and>
   handleAlerts (marker @ '' buy(1){ '' @ marker @ '' }'') = Some ''}''"
proof -
  have "handleAlerts (marker @ ''a()'' @ marker) = None"
    and "handleAlerts (marker @ '' buy(1){ '' @ marker @ '' }'') = Some ''}''"
    by code_simp+
  then show ?thesis by simp
qed

text \<open>
  C9, amended. When the message contains the marker and the text left by the block
  removal contains the marker twice or more, \<^verbatim>\<open>handleAlerts\<close> removes the first of these
  occurrences only (when the first marker of that text follows \<open>u\<close>, the text forwarded
  is \<open>u\<close> and the rest, collapsed and trimmed); a later one remains in the forwarded
  text, so that text is not empty and the notifier is called.
\<close>

theorem later_markers_remain:
  assumes "sublist marker msg"
    and "replace_all alertBlock [] msg = u @ marker @ v @ marker @ w"
  shows "handleAlerts msg = Some (trim (collapse (delete_first marker (u @ marker @ v @ marker @ w)))) \<and>
         sublist marker (trim (collapse (delete_first marker (u @ marker @ v @ marker @ w)))) \<and>
         (\<not> sublist marker (u @ ''{!'') \<longrightarrow>
            handleAlerts msg = Some (trim (collapse (u @ v @ marker @ w))))"
proof -
  have "sublist marker (v @ marker @ w)" by (simp add: sublist_append)
  then have "sublist marker (delete_first marker (u @ marker @ v @ marker @ w))"
    by (rule delete_first_keeps)
  then have k: "sublist marker (trim (collapse (delete_first marker (u @ marker @ v @ marker @ w))))"
    by (intro trim_keeps collapse_keeps)
  then have "trim (collapse (delete_first marker (u @ marker @ v @ marker @ w))) \<noteq> []"
    by (auto simp: marker_chars)
  with assms handleAlerts_unfold[of msg]
  have h: "handleAlerts msg = Some (trim (collapse (delete_first marker (u @ marker @ v @ marker @ w))))"
    by simp
  have "handleAlerts msg = Some (trim (collapse (u @ v @ marker @ w)))"
    if "\<not> sublist marker (u @ ''{!'')"
    using h delete_first_first[OF that, of "v @ marker @ w"] by simp
  with h k show ?thesis by blast
qed

theorem later_markers_remain_witness:
  "sublist marker ''x {!} y {!} z'' \<and>
   replace_all alertBlock [] ''x {!} y {!} z'' = ''x '' @ marker @ '' y '' @ marker @ '' z'' \<and>
   \<not> sublist marker (''x '' @ ''{!'') \<and>
   handleAlerts ''x {!} y {!} z'' = Some ''x y {!} z'' \<and>
   sublist marker ''x y {!} z''"
proof -
  let ?A = "trim (collapse (delete_first marker (''x '' @ marker @ '' y '' @ marker @ '' z'')))"
  let ?B = "trim (collapse (''x '' @ '' y '' @ marker @ '' z''))"
  have "sublist marker (''x '' @ marker @ '' y {!} z'')" by (rule sublist_appendI)
  then have h1: "sublist marker ''x {!} y {!} z''" by (simp add: marker_def)
  have h2: "replace_all alertBlock [] ''x {!} y {!} z'' = ''x '' @ marker @ '' y '' @ marker @ '' z''"
    by code_simp
  have "search notifyRegex 0 True (''x '' @ ''{!'') = None" by code_simp
  then have h3: "\<not> sublist marker (''x '' @ ''{!'')"
    using search_notifyRegex_None[of 0 True "''x '' @ ''{!''"] by blast
  have t: "?B = ''x y {!} z''" by code_simp
  from later_markers_remain[OF h1 h2]
  have a: "handleAlerts ''x {!} y {!} z'' = Some ?A" and s: "sublist marker ?A"
    and i: "\<not> sublist marker (''x '' @ ''{!'') \<longrightarrow> handleAlerts ''x {!} y {!} z'' = Some ?B"
    by blast+
  from i h3 have b: "handleAlerts ''x {!} y {!} z'' = Some ?B" by blast
  from a b have "?A = ?B" by (metis option.inject)
  with s have "sublist marker ?B" by (simp only:)
  then have h5: "sublist marker ''x y {!} z''" by (simp only: t)
  from b have h4: "handleAlerts ''x {!} y {!} z'' = Some ''x y {!} z''" by (simp only: t)
  from h1 h2 h3 h4 h5 show ?thesis by blast
qed

text \<open>
  C10. The message \<^verbatim>\<open>{!} abc1(SYM){buy(1)}\<close> contains the alert marker and a block whose
  exchange identifier has a digit after its first letter: \<^verbatim>\<open>commandBlocks\<close> emits the block,
  the block removal of \<^verbatim>\<open>handleAlerts\<close> leaves the message as it is, and the text of the
  block is forwarded to the notifier.
\<close>

theorem grammars_differ:
  "exec notifyRegex ''{!} abc1(SYM){buy(1)}'' \<noteq> None \<and>
   commandBlocks ''{!} abc1(SYM){buy(1)}'' = [(''abc1'', ''SYM'', ''buy(1)'')] \<and>
   replace_all alertBlock [] ''{!} abc1(SYM){buy(1)}'' = ''{!} abc1(SYM){buy(1)}'' \<and>
   handleAlerts ''{!} abc1(SYM){buy(1)}'' = Some ''abc1(SYM){buy(1)}''"
  by code_simp

end
